theory Spec2Isabelle
  imports
    Main
    "HOL-Library.FSet"
    "HOL-Library.Multiset"
    "HOL-Library.Product_Lexorder"
    "HOL-Library.List_Lexorder"
begin

section \<open>Knowledge statements (knowledge\_statement.py)\<close>

text \<open>
  A board cell is a pair \<open>(row, col)\<close> of Python integers.  A \<open>KnowledgeStatement\<close>
  holds a Python \<open>set\<close> of cells (finite, duplicate free, compared extensionally: an
  \<open>fset\<close>) and an unbounded integer \<open>mine_count\<close>.  Structural equality
  (\<open>__eq__\<close>) is equality of the two fields, which is equality of the record.
\<close>

type_synonym cell = "int \<times> int"

record KnowledgeStatement =
  cell_positions :: "cell fset"
  mine_count :: int

text \<open>\<open>KnowledgeStatement.__init__\<close>: the constructor copies the set it is given.\<close>

definition new_statement :: "cell fset \<Rightarrow> int \<Rightarrow> KnowledgeStatement" where
  "new_statement cells n = \<lparr>cell_positions = cells, mine_count = n\<rparr>"

text \<open>\<open>__lt__\<close> compares the tuples \<open>(len(cell_positions), mine_count)\<close>
  lexicographically.\<close>

definition sort_key_of :: "KnowledgeStatement \<Rightarrow> int \<times> int" where
  "sort_key_of s = (int (fcard (cell_positions s)), mine_count s)"

definition statement_lt :: "KnowledgeStatement \<Rightarrow> KnowledgeStatement \<Rightarrow> bool" where
  "statement_lt s t \<longleftrightarrow> sort_key_of s < sort_key_of t"

definition known_mines :: "KnowledgeStatement \<Rightarrow> cell fset" where
  "known_mines s =
     (if int (fcard (cell_positions s)) = mine_count s then cell_positions s else {||})"

definition known_safes :: "KnowledgeStatement \<Rightarrow> cell fset" where
  "known_safes s = (if mine_count s = 0 then cell_positions s else {||})"

text \<open>The two mutators update the object in place; the model returns the updated
  object.\<close>

definition statement_mark_cell_as_mine :: "cell \<Rightarrow> KnowledgeStatement \<Rightarrow> KnowledgeStatement" where
  "statement_mark_cell_as_mine c s =
     (if c |\<in>| cell_positions s
      then s\<lparr>cell_positions := cell_positions s |-| {|c|}, mine_count := mine_count s - 1\<rparr>
      else s)"

definition statement_mark_cell_as_safe :: "cell \<Rightarrow> KnowledgeStatement \<Rightarrow> KnowledgeStatement" where
  "statement_mark_cell_as_safe c s =
     (if c |\<in>| cell_positions s
      then s\<lparr>cell_positions := cell_positions s |-| {|c|}\<rparr>
      else s)"

section \<open>The object store\<close>

text \<open>
  Knowledge statements are mutable Python objects that several containers share: the
  knowledge base, the set of statements inferred during one ingestion, and the lists the
  search algorithms return.  The model keeps them in an explicit store: a reference is an
  index into the list of all statements allocated so far, allocation appends, and every
  container holds references.
\<close>

type_synonym ref = nat
type_synonym heap = "KnowledgeStatement list"

definition valid_refs :: "heap \<Rightarrow> ref list \<Rightarrow> bool" where
  "valid_refs h rs = list_all (\<lambda>r. r < length h) rs"

text \<open>The statements a list of references denotes.\<close>

definition deref :: "heap \<Rightarrow> ref list \<Rightarrow> KnowledgeStatement list" where
  "deref h rs = map (\<lambda>r. h ! r) rs"

section \<open>Statistics (stat\_generator.py)\<close>

record StatGenerator =
  knowledge_base_total_size :: nat
  knowledge_base_max_size :: nat
  knowledge_base_count :: nat
  inferences_total :: nat
  inferences_max :: nat
  subset_comparisons_total :: nat
  subset_comparisons_max :: nat
  subset_comparisons_count :: nat
  iterations_total :: nat
  iterations_max :: nat
  iterations_count :: nat
  duplicate_inferences_total :: nat

definition new_stat_generator :: StatGenerator where
  "new_stat_generator = \<lparr>knowledge_base_total_size = 0, knowledge_base_max_size = 0,
     knowledge_base_count = 0, inferences_total = 0, inferences_max = 0,
     subset_comparisons_total = 0, subset_comparisons_max = 0, subset_comparisons_count = 0,
     iterations_total = 0, iterations_max = 0, iterations_count = 0,
     duplicate_inferences_total = 0\<rparr>"

definition reset_current_stats :: "StatGenerator \<Rightarrow> StatGenerator" where
  "reset_current_stats g = g\<lparr>knowledge_base_count := knowledge_base_count g + 1\<rparr>"

definition update_knowledge_base_size :: "nat \<Rightarrow> StatGenerator \<Rightarrow> StatGenerator" where
  "update_knowledge_base_size n g =
     g\<lparr>knowledge_base_total_size := knowledge_base_total_size g + n,
       knowledge_base_max_size := (if n > knowledge_base_max_size g then n else knowledge_base_max_size g)\<rparr>"

definition update_inferences :: "nat \<Rightarrow> StatGenerator \<Rightarrow> StatGenerator" where
  "update_inferences n g =
     g\<lparr>inferences_total := inferences_total g + n,
       inferences_max := (if n > inferences_max g then n else inferences_max g)\<rparr>"

definition update_subset_comparisons :: "nat \<Rightarrow> StatGenerator \<Rightarrow> StatGenerator" where
  "update_subset_comparisons n g =
     g\<lparr>subset_comparisons_max := (if n > subset_comparisons_max g then n else subset_comparisons_max g),
       subset_comparisons_total := subset_comparisons_total g + n,
       subset_comparisons_count := subset_comparisons_count g + 1\<rparr>"

definition update_iterations :: "nat \<Rightarrow> StatGenerator \<Rightarrow> StatGenerator" where
  "update_iterations n g =
     g\<lparr>iterations_total := iterations_total g + n,
       iterations_max := (if n > iterations_max g then n else iterations_max g),
       iterations_count := iterations_count g + 1\<rparr>"

definition update_duplicate_inferences :: "nat \<Rightarrow> StatGenerator \<Rightarrow> StatGenerator" where
  "update_duplicate_inferences n g =
     g\<lparr>duplicate_inferences_total := duplicate_inferences_total g + n\<rparr>"

section \<open>Subset search algorithms (subset\_search\_algorithms.py)\<close>

text \<open>
  Every search algorithm receives the knowledge base (a Python list of statement
  objects, passed by reference) and a starting value for its comparison counter, and
  returns a list of statement objects.  The state of a scan is the store, the list of
  inferred statements built so far and the comparison counter.  What a call leaves
  behind is the store, the list object it was passed (the caller's knowledge base), the
  returned list and the statistics.
\<close>

record scan =
  store :: heap
  inferred :: "ref list"
  comparisons :: nat

record search_result =
  result_store :: heap
  result_knowledge_base :: "ref list"
  result_inferred :: "ref list"
  result_stats :: StatGenerator

text \<open>
  The derivation step all algorithms share: \<open>small\<close> and \<open>big\<close> are two statement
  objects with \<open>small.cell_positions \<subseteq> big.cell_positions\<close>; the new statement has
  the difference of the cells and of the counts.
\<close>

definition difference_statement :: "KnowledgeStatement \<Rightarrow> KnowledgeStatement \<Rightarrow> KnowledgeStatement" where
  "difference_statement small big =
     new_statement (cell_positions big |-| cell_positions small) (mine_count big - mine_count small)"

text \<open>
  \<open>if new_inferred_statement not in inferred_statements: inferred_statements.append(...)\<close>.
  Membership in a list (and in a set of freshly built objects that are not mutated while
  the scan runs) is structural equality with one of its members.  The object is added to
  the store when it is kept.
\<close>

definition append_if_new :: "KnowledgeStatement \<Rightarrow> scan \<Rightarrow> scan" where
  "append_if_new new sc =
     (if new \<in> set (deref (store sc) (inferred sc)) then sc
      else sc\<lparr>store := store sc @ [new], inferred := inferred sc @ [length (store sc)]\<rparr>)"

subsection \<open>Brute force\<close>

definition brute_force_compare :: "ref \<Rightarrow> ref \<Rightarrow> scan \<Rightarrow> scan" where
  "brute_force_compare statement other_statement sc =
     (let sc1 = sc\<lparr>comparisons := comparisons sc + 1\<rparr>;
          a = store sc ! statement; b = store sc ! other_statement
      in if cell_positions a |\<subseteq>| cell_positions b
         then append_if_new (difference_statement a b) sc1
         else sc1)"

fun brute_force_inner :: "ref \<Rightarrow> ref list \<Rightarrow> scan \<Rightarrow> scan" where
  "brute_force_inner statement [] sc = sc"
| "brute_force_inner statement (other_statement # rest) sc =
     brute_force_inner statement rest (brute_force_compare statement other_statement sc)"

fun brute_force_outer :: "ref list \<Rightarrow> ref list \<Rightarrow> scan \<Rightarrow> scan" where
  "brute_force_outer [] knowledge_base sc = sc"
| "brute_force_outer (statement # rest) knowledge_base sc =
     brute_force_outer rest knowledge_base (brute_force_inner statement knowledge_base sc)"

definition finish_search :: "ref list \<Rightarrow> StatGenerator \<Rightarrow> scan \<Rightarrow> search_result" where
  "finish_search knowledge_base g sc =
     \<lparr>result_store = store sc, result_knowledge_base = knowledge_base,
      result_inferred = inferred sc,
      result_stats = update_inferences (length (inferred sc))
                       (update_subset_comparisons (comparisons sc) g)\<rparr>"

definition brute_force_search :: "StatGenerator \<Rightarrow> heap \<Rightarrow> ref list \<Rightarrow> nat \<Rightarrow> search_result" where
  "brute_force_search g h knowledge_base subset_comparisons =
     finish_search knowledge_base g
       (brute_force_outer knowledge_base knowledge_base
          \<lparr>store = h, inferred = [], comparisons = subset_comparisons\<rparr>)"

subsection \<open>Sorting\<close>

text \<open>
  Python's \<open>sorted\<close> is stable, and so is \<open>sort_key\<close>.  \<open>sorted(kb)\<close> orders by
  \<open>__lt__\<close>, that is by the key \<open>(len(cell_positions), mine_count)\<close>;
  \<open>sorted(kb, reverse=True)\<close> orders by the same key descending and keeps the
  original order of statements with equal keys (reverse, sort, reverse);
  \<open>sorted(kb, key=len)\<close> and \<open>sorted(kb, key=-len)\<close> order by the number of cells.
\<close>

definition cell_count :: "heap \<Rightarrow> ref \<Rightarrow> nat" where
  "cell_count h r = fcard (cell_positions (h ! r))"

definition sorted_by_lt :: "heap \<Rightarrow> ref list \<Rightarrow> ref list" where
  "sorted_by_lt h rs = sort_key (\<lambda>r. sort_key_of (h ! r)) rs"

definition sorted_by_lt_reverse :: "heap \<Rightarrow> ref list \<Rightarrow> ref list" where
  "sorted_by_lt_reverse h rs = rev (sort_key (\<lambda>r. sort_key_of (h ! r)) (rev rs))"

definition sorted_by_size :: "heap \<Rightarrow> ref list \<Rightarrow> ref list" where
  "sorted_by_size h rs = sort_key (cell_count h) rs"

definition sorted_by_negated_size :: "heap \<Rightarrow> ref list \<Rightarrow> ref list" where
  "sorted_by_negated_size h rs = sort_key (\<lambda>r. - int (cell_count h r)) rs"

subsection \<open>Divide and conquer\<close>

text \<open>
  The inner function works on the index range \<open>start..end\<close> of the list.  It returns
  the merged statements, the comparisons and the number of inferences; the merged
  statements of a single index are the statement object at that index itself.
\<close>

definition divide_and_conquer_compare :: "ref \<Rightarrow> ref \<Rightarrow> scan \<times> nat \<Rightarrow> scan \<times> nat" where
  "divide_and_conquer_compare left_statement right_statement acc =
     (let sc = fst acc; merge_inferences = snd acc;
          sc1 = sc\<lparr>comparisons := comparisons sc + 1\<rparr>;
          a = store sc ! left_statement; b = store sc ! right_statement
      in if cell_positions a |\<subseteq>| cell_positions b
         then (if difference_statement a b \<in> set (deref (store sc) (inferred sc))
               then (sc1, merge_inferences)
               else (append_if_new (difference_statement a b) sc1, merge_inferences + 1))
         else (sc1, merge_inferences))"

fun divide_and_conquer_inner :: "ref \<Rightarrow> ref list \<Rightarrow> scan \<times> nat \<Rightarrow> scan \<times> nat" where
  "divide_and_conquer_inner left_statement [] acc = acc"
| "divide_and_conquer_inner left_statement (right_statement # rest) acc =
     divide_and_conquer_inner left_statement rest
       (divide_and_conquer_compare left_statement right_statement acc)"

fun divide_and_conquer_outer :: "ref list \<Rightarrow> ref list \<Rightarrow> scan \<times> nat \<Rightarrow> scan \<times> nat" where
  "divide_and_conquer_outer [] right_inferred acc = acc"
| "divide_and_conquer_outer (left_statement # rest) right_inferred acc =
     divide_and_conquer_outer rest right_inferred
       (divide_and_conquer_inner left_statement right_inferred acc)"

function divide_and_conquer :: "heap \<Rightarrow> ref list \<Rightarrow> nat \<Rightarrow> nat \<Rightarrow> scan \<times> nat" where
  "divide_and_conquer h a_knowledge_base start end =
     (if start > end then (\<lparr>store = h, inferred = [], comparisons = 0\<rparr>, 0)
      else if start = end
      then (\<lparr>store = h, inferred = [a_knowledge_base ! start], comparisons = 0\<rparr>, 0)
      else
        (let mid = (start + end) div 2;
             left = divide_and_conquer h a_knowledge_base start mid;
             right = divide_and_conquer (store (fst left)) a_knowledge_base (mid + 1) end;
             left_inferred = inferred (fst left);
             right_inferred = inferred (fst right)
         in divide_and_conquer_outer left_inferred right_inferred
              (\<lparr>store = store (fst right),
                inferred = left_inferred @ right_inferred,
                comparisons = comparisons (fst left) + comparisons (fst right)\<rparr>,
               snd left + snd right)))"
  by pat_completeness auto
termination
  by (relation "measure (\<lambda>(h, kb, start, end). end - start)") auto

declare divide_and_conquer.simps [simp del]

definition divide_and_conquer_search :: "StatGenerator \<Rightarrow> heap \<Rightarrow> ref list \<Rightarrow> nat \<Rightarrow> search_result" where
  "divide_and_conquer_search g h knowledge_base subset_comparisons =
     (if knowledge_base = []
      then \<lparr>result_store = h, result_knowledge_base = knowledge_base,
            result_inferred = [], result_stats = g\<rparr>
      else
        (let r = divide_and_conquer h knowledge_base 0 (length knowledge_base - 1)
         in \<lparr>result_store = store (fst r), result_knowledge_base = knowledge_base,
             result_inferred = inferred (fst r),
             result_stats = update_inferences (snd r)
                              (update_subset_comparisons (comparisons (fst r)) g)\<rparr>))"

subsection \<open>Dynamic programming\<close>

text \<open>
  \<open>dp_cache\<close> is a set of pairs of statement objects; pairs are hashed and compared by
  the values of their components, and no statement changes during the scan, so the cache
  is a set of pairs of statement values.
\<close>

type_synonym dp_cache = "(KnowledgeStatement \<times> KnowledgeStatement) set"

definition dynamic_programming_compare :: "ref \<Rightarrow> ref \<Rightarrow> scan \<times> dp_cache \<Rightarrow> scan \<times> dp_cache" where
  "dynamic_programming_compare statement other_statement acc =
     (let sc = fst acc; cache = snd acc;
          a = store sc ! statement; b = store sc ! other_statement
      in if (a, b) \<in> cache then acc
         else
           (let sc1 = sc\<lparr>comparisons := comparisons sc + 1\<rparr>
            in if cell_positions a |\<subseteq>| cell_positions b
               then
                 (let new = difference_statement a b
                  in if mine_count new < 0 \<or> cell_positions new = {||} then (sc1, cache)
                     else if new \<in> set (deref (store sc) (inferred sc))
                     then (sc1, insert (a, b) cache)
                     else (append_if_new new sc1,
                           if fcard (cell_positions new) > 1
                           then insert (new, a) (insert (a, b) cache)
                           else insert (a, b) cache))
               else (sc1, cache)))"

fun dynamic_programming_inner :: "ref \<Rightarrow> ref list \<Rightarrow> scan \<times> dp_cache \<Rightarrow> scan \<times> dp_cache" where
  "dynamic_programming_inner statement [] acc = acc"
| "dynamic_programming_inner statement (other_statement # rest) acc =
     dynamic_programming_inner statement rest
       (dynamic_programming_compare statement other_statement acc)"

fun dynamic_programming_outer :: "ref list \<Rightarrow> scan \<times> dp_cache \<Rightarrow> scan \<times> dp_cache" where
  "dynamic_programming_outer [] acc = acc"
| "dynamic_programming_outer (statement # rest) acc =
     dynamic_programming_outer rest (dynamic_programming_inner statement rest acc)"

definition dynamic_programming_search :: "StatGenerator \<Rightarrow> heap \<Rightarrow> ref list \<Rightarrow> nat \<Rightarrow> search_result" where
  "dynamic_programming_search g h knowledge_base subset_comparisons =
     finish_search knowledge_base g
       (fst (dynamic_programming_outer (sorted_by_lt h knowledge_base)
          (\<lparr>store = h, inferred = [], comparisons = subset_comparisons\<rparr>, {})))"

subsection \<open>Greedy by size\<close>

text \<open>
  The outer loop enumerates the list that was sorted first; the inner loop reads the
  slice \<open>sorted_knowledge_base[i + 1:]\<close> of the list the variable is bound to at that
  moment, which is sorted again from the caller's list after every outer step.  A new
  statement is appended to the caller's list.  \<open>inferred_statements\<close> is a set of fresh
  objects, returned as a list.
\<close>

record greedy_size_state =
  gs_scan :: scan
  gs_knowledge_base :: "ref list"
  gs_sorted_knowledge_base :: "ref list"

definition greedy_size_infer :: "ref \<Rightarrow> ref \<Rightarrow> greedy_size_state \<Rightarrow> greedy_size_state" where
  "greedy_size_infer current_statement next_statement st =
     (let sc = gs_scan st;
          cur = store sc ! current_statement; nxt = store sc ! next_statement
      in if cell_positions nxt |\<subseteq>| cell_positions cur
         then (let new = difference_statement nxt cur
               in if new \<in> set (deref (store sc) (inferred sc)) then st
                  else st\<lparr>gs_scan := append_if_new new sc,
                          gs_knowledge_base := gs_knowledge_base st @ [length (store sc)]\<rparr>)
         else st)"

fun greedy_size_inner :: "ref \<Rightarrow> ref list \<Rightarrow> greedy_size_state \<Rightarrow> greedy_size_state" where
  "greedy_size_inner current_statement [] st = st"
| "greedy_size_inner current_statement (next_statement # rest) st =
     (let st1 = st\<lparr>gs_scan := (gs_scan st)\<lparr>comparisons := comparisons (gs_scan st) + 1\<rparr>\<rparr>
      in if cell_count (store (gs_scan st)) next_statement
              \<ge> cell_count (store (gs_scan st)) current_statement
         then st1
         else greedy_size_inner current_statement rest
                (greedy_size_infer current_statement next_statement st1))"

fun greedy_size_outer :: "(nat \<times> ref) list \<Rightarrow> greedy_size_state \<Rightarrow> greedy_size_state" where
  "greedy_size_outer [] st = st"
| "greedy_size_outer ((i, current_statement) # rest) st =
     (let st1 = greedy_size_inner current_statement
                  (drop (i + 1) (gs_sorted_knowledge_base st)) st
      in greedy_size_outer rest
           (st1\<lparr>gs_sorted_knowledge_base :=
                  sorted_by_size (store (gs_scan st1)) (gs_knowledge_base st1)\<rparr>))"

definition greedy_algorithm_size_search :: "StatGenerator \<Rightarrow> heap \<Rightarrow> ref list \<Rightarrow> nat \<Rightarrow> search_result" where
  "greedy_algorithm_size_search g h knowledge_base subset_comparisons =
     (let sorted_knowledge_base = sorted_by_size h knowledge_base;
          st = greedy_size_outer (enumerate 0 sorted_knowledge_base)
                 \<lparr>gs_scan = \<lparr>store = h, inferred = [], comparisons = subset_comparisons\<rparr>,
                  gs_knowledge_base = knowledge_base,
                  gs_sorted_knowledge_base = sorted_knowledge_base\<rparr>
      in finish_search (gs_knowledge_base st) g (gs_scan st))"

subsection \<open>Greedy by mine count\<close>

fun greedy_minecount_inner :: "ref \<Rightarrow> ref list \<Rightarrow> scan \<Rightarrow> scan" where
  "greedy_minecount_inner current_statement [] sc = sc"
| "greedy_minecount_inner current_statement (next_statement # rest) sc =
     (let sc1 = sc\<lparr>comparisons := comparisons sc + 1\<rparr>;
          cur = store sc ! current_statement; nxt = store sc ! next_statement
      in if cell_positions nxt |\<subseteq>| cell_positions cur
         then greedy_minecount_inner current_statement rest
                (append_if_new (difference_statement nxt cur) sc1)
         else sc1)"

fun greedy_minecount_outer :: "ref list \<Rightarrow> scan \<Rightarrow> scan" where
  "greedy_minecount_outer [] sc = sc"
| "greedy_minecount_outer (current_statement # rest) sc =
     greedy_minecount_outer rest (greedy_minecount_inner current_statement rest sc)"

definition greedy_algorithm_minecount_search :: "StatGenerator \<Rightarrow> heap \<Rightarrow> ref list \<Rightarrow> nat \<Rightarrow> search_result" where
  "greedy_algorithm_minecount_search g h knowledge_base subset_comparisons =
     finish_search knowledge_base g
       (greedy_minecount_outer (sorted_by_lt_reverse h knowledge_base)
          \<lparr>store = h, inferred = [], comparisons = subset_comparisons\<rparr>)"

subsection \<open>Breadth first and depth first search\<close>

text \<open>
  A tree node is identified with its knowledge base (a list of statement objects); the
  parent and child links of \<open>TreeNode\<close> are never read.  The frontier is the queue
  (breadth first) or the stack (depth first) of nodes still to explore.  The key of a
  node is the sorted tuple of the cell tuples of its statements.  The code lists the
  cells of a statement with \<open>tuple(statement.cell_positions)\<close>, in the order of the
  hash table of that set object, so that two equal sets can give two different tuples;
  the model lists the cells in ascending order, so that equal sets give equal tuples.
  The model can therefore take a node as visited that the code explores.  What is
  proved below about the two tree searches for all inputs does not depend on how the
  key is computed.
\<close>

type_synonym kb_key = "cell list list"

definition kb_key_of :: "heap \<Rightarrow> ref list \<Rightarrow> kb_key" where
  "kb_key_of h current_kb = sort (map (\<lambda>r. sorted_list_of_fset (cell_positions (h ! r))) current_kb)"

record tree_search_state =
  ts_scan :: scan
  ts_frontier :: "ref list list"
  ts_visited :: "kb_key set"

definition bfs_compare :: "ref list \<Rightarrow> ref \<Rightarrow> ref \<Rightarrow> tree_search_state \<Rightarrow> tree_search_state" where
  "bfs_compare current_kb statement other_statement st =
     (let sc = ts_scan st;
          sc1 = sc\<lparr>comparisons := comparisons sc + 1\<rparr>;
          a = store sc ! statement; b = store sc ! other_statement
      in if cell_positions a |\<subseteq>| cell_positions b
         then (let new = difference_statement a b
               in if new \<in> set (deref (store sc) (inferred sc)) then st\<lparr>ts_scan := sc1\<rparr>
                  else st\<lparr>ts_scan := append_if_new new sc1,
                          ts_frontier := ts_frontier st @ [current_kb @ [length (store sc)]]\<rparr>)
         else st\<lparr>ts_scan := sc1\<rparr>)"

fun bfs_inner :: "ref list \<Rightarrow> ref \<Rightarrow> ref list \<Rightarrow> tree_search_state \<Rightarrow> tree_search_state" where
  "bfs_inner current_kb statement [] st = st"
| "bfs_inner current_kb statement (other_statement # rest) st =
     bfs_inner current_kb statement rest (bfs_compare current_kb statement other_statement st)"

fun bfs_pairs :: "ref list \<Rightarrow> ref list \<Rightarrow> tree_search_state \<Rightarrow> tree_search_state" where
  "bfs_pairs current_kb [] st = st"
| "bfs_pairs current_kb (statement # rest) st =
     bfs_pairs current_kb rest (bfs_inner current_kb statement rest st)"

partial_function (option) bfs_loop :: "tree_search_state \<Rightarrow> tree_search_state option" where
  "bfs_loop st =
     (case ts_frontier st of
        [] \<Rightarrow> Some st
      | current_kb # queue \<Rightarrow>
          (let st1 = st\<lparr>ts_frontier := queue\<rparr>;
               key = kb_key_of (store (ts_scan st)) current_kb
           in if key \<in> ts_visited st then bfs_loop st1
              else bfs_loop (bfs_pairs current_kb current_kb
                               (st1\<lparr>ts_visited := insert key (ts_visited st)\<rparr>))))"

declare bfs_loop.simps [code]

definition bfs_search :: "StatGenerator \<Rightarrow> heap \<Rightarrow> ref list \<Rightarrow> nat \<Rightarrow> search_result option" where
  "bfs_search g h knowledge_base subset_comparisons =
     map_option (\<lambda>st. finish_search knowledge_base g (ts_scan st))
       (bfs_loop \<lparr>ts_scan = \<lparr>store = h, inferred = [], comparisons = subset_comparisons\<rparr>,
                  ts_frontier = [sorted_by_size h knowledge_base],
                  ts_visited = {}\<rparr>)"

definition dfs_compare :: "ref list \<Rightarrow> ref \<Rightarrow> ref \<Rightarrow> tree_search_state \<Rightarrow> tree_search_state" where
  "dfs_compare current_kb statement other_statement st =
     (let sc = ts_scan st;
          sc1 = sc\<lparr>comparisons := comparisons sc + 1\<rparr>;
          a = store sc ! statement; b = store sc ! other_statement
      in if cell_positions a |\<subseteq>| cell_positions b
         then (let new = difference_statement a b
               in if mine_count new \<ge> 0 \<and> cell_positions new \<noteq> {||}
                  then (if new \<in> set (deref (store sc) (inferred sc)) then st\<lparr>ts_scan := sc1\<rparr>
                        else st\<lparr>ts_scan := append_if_new new sc1,
                                ts_frontier := ts_frontier st @ [current_kb @ [length (store sc)]]\<rparr>)
                  else st\<lparr>ts_scan := sc1\<rparr>)
         else st\<lparr>ts_scan := sc1\<rparr>)"

fun dfs_inner :: "ref list \<Rightarrow> ref \<Rightarrow> ref list \<Rightarrow> tree_search_state \<Rightarrow> tree_search_state" where
  "dfs_inner current_kb statement [] st = st"
| "dfs_inner current_kb statement (other_statement # rest) st =
     dfs_inner current_kb statement rest (dfs_compare current_kb statement other_statement st)"

fun dfs_pairs :: "ref list \<Rightarrow> ref list \<Rightarrow> tree_search_state \<Rightarrow> tree_search_state" where
  "dfs_pairs current_kb [] st = st"
| "dfs_pairs current_kb (statement # rest) st =
     dfs_pairs current_kb rest (dfs_inner current_kb statement rest st)"

text \<open>The stack grows and shrinks at its end: \<open>stack.pop()\<close> takes the last node.\<close>

partial_function (option) dfs_loop :: "tree_search_state \<Rightarrow> tree_search_state option" where
  "dfs_loop st =
     (if ts_frontier st = [] then Some st
      else
        (let current_kb = last (ts_frontier st);
             st1 = st\<lparr>ts_frontier := butlast (ts_frontier st)\<rparr>;
             key = kb_key_of (store (ts_scan st)) current_kb
         in if key \<in> ts_visited st then dfs_loop st1
            else dfs_loop (dfs_pairs current_kb current_kb
                             (st1\<lparr>ts_visited := insert key (ts_visited st)\<rparr>))))"

declare dfs_loop.simps [code]

definition dfs_search :: "StatGenerator \<Rightarrow> heap \<Rightarrow> ref list \<Rightarrow> nat \<Rightarrow> search_result option" where
  "dfs_search g h knowledge_base subset_comparisons =
     map_option (\<lambda>st. finish_search knowledge_base g (ts_scan st))
       (dfs_loop \<lparr>ts_scan = \<lparr>store = h, inferred = [], comparisons = subset_comparisons\<rparr>,
                  ts_frontier = [sorted_by_negated_size h knowledge_base],
                  ts_visited = {}\<rparr>)"

subsection \<open>Selecting an algorithm\<close>

datatype algorithm =
  Brute_force | Divide_and_conquer | Dynamic_programming | Greedy_algorithm_size
  | Greedy_algorithm_minecount | Bfs | Dfs

definition algorithms :: "(string \<times> algorithm) list" where
  "algorithms =
     [(''brute_force'', Brute_force),
      (''divide_and_conquer'', Divide_and_conquer),
      (''dynamic_programming'', Dynamic_programming),
      (''greedy_algorithm_size'', Greedy_algorithm_size),
      (''greedy_algorithm_minecount'', Greedy_algorithm_minecount),
      (''bfs'', Bfs),
      (''dfs'', Dfs)]"

text \<open>
  \<open>select_algorithm\<close> looks the name up in the dictionary; for a name that is not a
  key it prints one line and returns the brute force search.  The model returns the
  selected method together with the lines printed.
\<close>

definition select_algorithm :: "string \<Rightarrow> algorithm \<times> string list" where
  "select_algorithm algorithm_name =
     (case map_of algorithms algorithm_name of
        Some algorithm \<Rightarrow> (algorithm, [])
      | None \<Rightarrow>
          (Brute_force,
           [''ERROR: Algorithm '' @ [CHR 0x27] @ algorithm_name @ [CHR 0x27]
              @ '' not found, defaulting to Brute Force'']))"

text \<open>Calling the selected method.  Only the two tree searches contain a \<open>while\<close>
  loop; a search that does not return is \<open>None\<close>.\<close>

fun run_algorithm :: "algorithm \<Rightarrow> StatGenerator \<Rightarrow> heap \<Rightarrow> ref list \<Rightarrow> nat \<Rightarrow> search_result option" where
  "run_algorithm Brute_force g h kb n = Some (brute_force_search g h kb n)"
| "run_algorithm Divide_and_conquer g h kb n = Some (divide_and_conquer_search g h kb n)"
| "run_algorithm Dynamic_programming g h kb n = Some (dynamic_programming_search g h kb n)"
| "run_algorithm Greedy_algorithm_size g h kb n = Some (greedy_algorithm_size_search g h kb n)"
| "run_algorithm Greedy_algorithm_minecount g h kb n = Some (greedy_algorithm_minecount_search g h kb n)"
| "run_algorithm Bfs g h kb n = bfs_search g h kb n"
| "run_algorithm Dfs g h kb n = dfs_search g h kb n"

section \<open>Safe cell selection (safe\_cell\_data\_structures.py)\<close>

datatype selection_strategy = Select_fifo | Select_lifo | Select_sorted | Select_random

definition strategies :: "(string \<times> selection_strategy) list" where
  "strategies =
     [(''First In, First Out'', Select_fifo),
      (''Last In, First Out'', Select_lifo),
      (''Sorted by position'', Select_sorted),
      (''Random'', Select_random)]"

definition select_strategy :: "string \<Rightarrow> selection_strategy \<times> string list" where
  "select_strategy strategy_name =
     (case map_of strategies strategy_name of
        Some strategy \<Rightarrow> (strategy, [])
      | None \<Rightarrow>
          (Select_fifo,
           [''ERROR: Strategy '' @ [CHR 0x27] @ strategy_name @ [CHR 0x27]
              @ '' not found, defaulting to FIFO'']))"

text \<open>
  Each strategy takes the deque of safe cells and returns the selected cell (or
  \<open>None\<close>) and the deque as it leaves it.  \<open>random.choice\<close> draws an index below the
  length of the deque; the index drawn is a parameter of the model.
\<close>

definition select_fifo :: "cell list \<Rightarrow> cell option \<times> cell list" where
  "select_fifo identified_safe_cells =
     (case identified_safe_cells of [] \<Rightarrow> (None, []) | c # rest \<Rightarrow> (Some c, rest))"

definition select_lifo :: "cell list \<Rightarrow> cell option \<times> cell list" where
  "select_lifo identified_safe_cells =
     (if identified_safe_cells = [] then (None, identified_safe_cells)
      else (Some (last identified_safe_cells), butlast identified_safe_cells))"

definition select_sorted :: "cell list \<Rightarrow> cell option \<times> cell list" where
  "select_sorted identified_safe_cells =
     (if identified_safe_cells = [] then (None, identified_safe_cells)
      else (let selected_cell = hd (sort identified_safe_cells)
            in (Some selected_cell, remove1 selected_cell identified_safe_cells)))"

definition select_random :: "nat \<Rightarrow> cell list \<Rightarrow> cell option \<times> cell list" where
  "select_random drawn identified_safe_cells =
     (if identified_safe_cells = [] then (None, identified_safe_cells)
      else (let selected_cell = identified_safe_cells ! (drawn mod length identified_safe_cells)
            in (Some selected_cell, remove1 selected_cell identified_safe_cells)))"

fun run_strategy :: "selection_strategy \<Rightarrow> nat \<Rightarrow> cell list \<Rightarrow> cell option \<times> cell list" where
  "run_strategy Select_fifo drawn q = select_fifo q"
| "run_strategy Select_lifo drawn q = select_lifo q"
| "run_strategy Select_sorted drawn q = select_sorted q"
| "run_strategy Select_random drawn q = select_random drawn q"

section \<open>The solver (minesweeper\_ai.py)\<close>

subsection \<open>A Python set of mutable statement objects\<close>

text \<open>
  \<open>inferred_set\<close> in \<open>add_knowledge\<close> is a Python set of statement objects that
  are also in the knowledge base and are mutated there while they are in the set.  A
  Python set stores each member with the hash it had when it was inserted
  (\<open>hash((frozenset(cell_positions), mine_count))\<close>) and never rehashes it.  A lookup
  hashes the object looked up as it is now, and finds a member when the stored hash is
  that hash and the member is the same object or is equal (\<open>__eq__\<close>) as it is now.
  The model stores with each member the value that was hashed, and takes two hashes to be
  equal exactly when the hashed values are equal (hash collisions of two different
  values are left out).
\<close>

type_synonym python_set = "(KnowledgeStatement \<times> ref) list"

definition python_set_contains :: "heap \<Rightarrow> python_set \<Rightarrow> ref \<Rightarrow> bool" where
  "python_set_contains h entries r =
     list_ex (\<lambda>(hashed, member). hashed = h ! r \<and> (member = r \<or> h ! member = h ! r)) entries"

definition python_set_add :: "heap \<Rightarrow> ref \<Rightarrow> python_set \<Rightarrow> python_set" where
  "python_set_add h r entries =
     (if python_set_contains h entries r then entries else entries @ [(h ! r, r)])"

text \<open>\<open>set(xs)\<close> and \<open>s.update(xs)\<close> add the members of the list one by one.\<close>

definition python_set_update :: "heap \<Rightarrow> ref list \<Rightarrow> python_set \<Rightarrow> python_set" where
  "python_set_update h rs entries = fold (python_set_add h) rs entries"

subsection \<open>The solver state\<close>

record MinesweeperAI =
  grid_size :: int
  moves_made :: "cell fset"
  identified_mines :: "cell fset"
  identified_safe_cells :: "cell fset"
  safe_cell_queue :: "cell list"
  knowledge_base :: "ref list"
  objects :: heap
  stat_generator :: StatGenerator
  search_algorithm_method :: algorithm
  safe_cell_selection_strategy :: selection_strategy

text \<open>The constructor; it also returns what the two selections printed.\<close>

definition new_ai :: "int \<Rightarrow> string \<Rightarrow> string \<Rightarrow> MinesweeperAI \<times> string list" where
  "new_ai a_grid_size search_algorithm_name safe_cell_strategy =
     (let (method, printed1) = select_algorithm search_algorithm_name;
          (strategy, printed2) = select_strategy safe_cell_strategy
      in (\<lparr>grid_size = a_grid_size, moves_made = {||}, identified_mines = {||},
           identified_safe_cells = {||}, safe_cell_queue = [], knowledge_base = [],
           objects = [], stat_generator = new_stat_generator,
           search_algorithm_method = method, safe_cell_selection_strategy = strategy\<rparr>,
          printed1 @ printed2))"

text \<open>
  \<open>for statement in self.knowledge_base: statement.mark_cell_as_mine(cell)\<close> updates
  each object of the knowledge base in the store.
\<close>

definition mark_statements :: "(KnowledgeStatement \<Rightarrow> KnowledgeStatement) \<Rightarrow> ref list \<Rightarrow> heap \<Rightarrow> heap" where
  "mark_statements f rs h = fold (\<lambda>r h'. h'[r := f (h' ! r)]) rs h"

definition mark_cell_as_mine :: "cell \<Rightarrow> MinesweeperAI \<Rightarrow> MinesweeperAI" where
  "mark_cell_as_mine c ai =
     ai\<lparr>identified_mines := finsert c (identified_mines ai),
        objects := mark_statements (statement_mark_cell_as_mine c) (knowledge_base ai) (objects ai)\<rparr>"

definition mark_cell_as_safe :: "cell \<Rightarrow> MinesweeperAI \<Rightarrow> MinesweeperAI" where
  "mark_cell_as_safe c ai =
     (let ai1 = (if c |\<notin>| identified_safe_cells ai
                 then ai\<lparr>identified_safe_cells := finsert c (identified_safe_cells ai),
                         safe_cell_queue := safe_cell_queue ai @ [c]\<rparr>
                 else ai)
      in ai1\<lparr>objects := mark_statements (statement_mark_cell_as_safe c) (knowledge_base ai1) (objects ai1)\<rparr>)"

subsection \<open>Removing empty and duplicate statements\<close>

text \<open>
  \<open>original_set\<close> is built from the knowledge base as it is at that moment and no
  statement changes during the loop, so it is a set of statement values.
\<close>

record purge_state =
  original_set :: "KnowledgeStatement set"
  cleaned_knowledge_base :: "ref list"
  duplicate_count :: nat

fun purge_loop :: "heap \<Rightarrow> ref list \<Rightarrow> purge_state \<Rightarrow> purge_state" where
  "purge_loop h [] st = st"
| "purge_loop h (statement # rest) st =
     purge_loop h rest
       (if cell_positions (h ! statement) \<noteq> {||}
        then (if h ! statement \<notin> original_set st
              then st\<lparr>duplicate_count := duplicate_count st + 1\<rparr>
              else st\<lparr>cleaned_knowledge_base := cleaned_knowledge_base st @ [statement],
                      original_set := original_set st - {h ! statement}\<rparr>)
        else st)"

definition remove_empty_and_duplicate_statements :: "MinesweeperAI \<Rightarrow> MinesweeperAI" where
  "remove_empty_and_duplicate_statements ai =
     (let st = purge_loop (objects ai) (knowledge_base ai)
                 \<lparr>original_set = set (deref (objects ai) (knowledge_base ai)),
                  cleaned_knowledge_base = [], duplicate_count = 0\<rparr>
      in ai\<lparr>knowledge_base := cleaned_knowledge_base st,
            stat_generator :=
              update_duplicate_inferences (duplicate_count st)
                (update_knowledge_base_size (length (cleaned_knowledge_base st))
                   (stat_generator ai))\<rparr>)"

subsection \<open>Adding knowledge\<close>

text \<open>
  The neighbours of a cell inside the grid.  Where the source iterates over a Python set
  of cells (\<open>identified_mines\<close>, \<open>cells_to_mark_safe\<close>, \<open>cells_to_mark_as_mine\<close>)
  it does so in the order of the hash table of the set; the model iterates in ascending
  order of the cells.  The order decides the order in which newly found safe cells
  enter \<open>safe_cell_queue\<close>, and so which cell a selection strategy hands out; it
  does not decide which cells are marked or which statements the knowledge base holds.
  What is proved below about the queue in all reachable states does not depend on the
  order of enumeration.
\<close>

definition surrounding_cells_of :: "int \<Rightarrow> cell \<Rightarrow> cell fset" where
  "surrounding_cells_of a_grid_size c =
     fset_of_list
       (filter (\<lambda>(i, j). (i, j) \<noteq> c \<and> 0 \<le> i \<and> i < a_grid_size \<and> 0 \<le> j \<and> j < a_grid_size)
          (concat (map (\<lambda>i. map (\<lambda>j. (i, j)) [snd c - 1 .. snd c + 1]) [fst c - 1 .. fst c + 1])))"

definition remove_known_mine :: "cell \<Rightarrow> cell fset \<times> int \<Rightarrow> cell fset \<times> int" where
  "remove_known_mine mine acc =
     (if mine |\<in>| fst acc then (fst acc |-| {|mine|}, snd acc - 1) else acc)"

definition collect_known_safes :: "heap \<Rightarrow> ref list \<Rightarrow> cell fset" where
  "collect_known_safes h rs = fold (\<lambda>r acc. acc |\<union>| known_safes (h ! r)) rs {||}"

definition collect_known_mines :: "heap \<Rightarrow> ref list \<Rightarrow> cell fset" where
  "collect_known_mines h rs = fold (\<lambda>r acc. acc |\<union>| known_mines (h ! r)) rs {||}"

text \<open>
  One pass of the \<open>while knowledge_changed\<close> loop has three parts.  The first collects
  the cells every statement knows to be safe or to be mines, marks them, and removes the
  empty and duplicate statements; it also says whether any cell was marked.
\<close>

definition mark_known_cells :: "MinesweeperAI \<Rightarrow> MinesweeperAI \<times> bool" where
  "mark_known_cells ai =
     (let cells_to_mark_safe = collect_known_safes (objects ai) (knowledge_base ai);
          cells_to_mark_as_mine = collect_known_mines (objects ai) (knowledge_base ai);
          ai1 = fold mark_cell_as_safe (sorted_list_of_fset cells_to_mark_safe) ai;
          ai2 = fold mark_cell_as_mine (sorted_list_of_fset cells_to_mark_as_mine) ai1
      in (remove_empty_and_duplicate_statements ai2,
          cells_to_mark_safe \<noteq> {||} \<or> cells_to_mark_as_mine \<noteq> {||}))"

text \<open>
  The second part calls the selected search algorithm on the knowledge base.  The third
  keeps the returned statements that are not in \<open>inferred_set\<close>, and adds them to the
  set and to the knowledge base.
\<close>

definition merge_inferences ::
    "MinesweeperAI \<Rightarrow> python_set \<Rightarrow> bool \<Rightarrow> search_result \<Rightarrow> MinesweeperAI \<times> python_set \<times> bool" where
  "merge_inferences ai inferred_set marked r =
     (let ai1 = ai\<lparr>objects := result_store r,
                   knowledge_base := result_knowledge_base r,
                   stat_generator := result_stats r\<rparr>;
          new_inferences =
            filter (\<lambda>inf. \<not> python_set_contains (objects ai1) inferred_set inf)
              (result_inferred r)
      in if new_inferences \<noteq> []
         then (ai1\<lparr>knowledge_base := knowledge_base ai1 @ new_inferences\<rparr>,
               python_set_update (objects ai1) new_inferences inferred_set,
               True)
         else (ai1, inferred_set, marked))"

text \<open>A pass returns the solver, the set of inferred statements and the flag
  \<open>knowledge_changed\<close>, or \<open>None\<close> when the search algorithm does not return.\<close>

definition propagation_pass :: "MinesweeperAI \<Rightarrow> python_set \<Rightarrow> (MinesweeperAI \<times> python_set \<times> bool) option" where
  "propagation_pass ai inferred_set =
     (let (ai1, marked) = mark_known_cells ai
      in map_option (merge_inferences ai1 inferred_set marked)
           (run_algorithm (search_algorithm_method ai1) (stat_generator ai1)
              (objects ai1) (knowledge_base ai1) 0))"

text \<open>The loop runs its body at least once and counts its iterations; a loop that
  does not end is \<open>None\<close>.\<close>

partial_function (option) propagation_loop ::
    "MinesweeperAI \<Rightarrow> python_set \<Rightarrow> nat \<Rightarrow> (MinesweeperAI \<times> python_set \<times> nat) option" where
  "propagation_loop ai inferred_set loop_iterations =
     (case propagation_pass ai inferred_set of
        None \<Rightarrow> None
      | Some (ai', inferred_set', knowledge_changed) \<Rightarrow>
          if knowledge_changed
          then propagation_loop ai' inferred_set' (loop_iterations + 1)
          else Some (ai', inferred_set', loop_iterations + 1))"

declare propagation_loop.simps [code]

text \<open>The part of \<open>add_knowledge\<close> before the loop.\<close>

definition add_statement :: "cell \<Rightarrow> int \<Rightarrow> MinesweeperAI \<Rightarrow> MinesweeperAI" where
  "add_statement c surrounding_mines_count ai =
     (let ai1 = ai\<lparr>stat_generator := reset_current_stats (stat_generator ai),
                   moves_made := finsert c (moves_made ai)\<rparr>;
          ai2 = mark_cell_as_safe c ai1;
          surrounding_cells = surrounding_cells_of (grid_size ai2) c |-| identified_safe_cells ai2;
          (surrounding_cells', surrounding_mines_count') =
             fold remove_known_mine (sorted_list_of_fset (identified_mines ai2))
               (surrounding_cells, surrounding_mines_count)
      in if surrounding_cells' \<noteq> {||}
         then ai2\<lparr>objects := objects ai2 @ [new_statement surrounding_cells' surrounding_mines_count'],
                  knowledge_base := knowledge_base ai2 @ [length (objects ai2)]\<rparr>
         else ai2)"

definition add_knowledge :: "cell \<Rightarrow> int \<Rightarrow> MinesweeperAI \<Rightarrow> MinesweeperAI option" where
  "add_knowledge c surrounding_mines_count ai =
     (let ai1 = add_statement c surrounding_mines_count ai;
          inferred_set = python_set_update (objects ai1) (knowledge_base ai1) []
      in map_option
           (\<lambda>(ai', inferred_set', loop_iterations).
               ai'\<lparr>stat_generator := update_iterations loop_iterations (stat_generator ai')\<rparr>)
           (propagation_loop ai1 inferred_set 0))"

subsection \<open>Making a safe move\<close>

definition make_safe_move :: "nat \<Rightarrow> MinesweeperAI \<Rightarrow> cell option \<times> MinesweeperAI" where
  "make_safe_move drawn ai =
     (if safe_cell_queue ai \<noteq> []
      then (let (selected, queue) = run_strategy (safe_cell_selection_strategy ai) drawn (safe_cell_queue ai)
            in (selected, ai\<lparr>safe_cell_queue := queue\<rparr>))
      else (None, ai))"

section \<open>Notions used in the proofs\<close>

text \<open>
  A scan only ever allocates: the later store extends the earlier one, and the references
  appended to the list of inferred statements are the newly allocated ones.
\<close>

definition grows :: "scan \<Rightarrow> scan \<Rightarrow> bool" where
  "grows sc sc' \<longleftrightarrow>
     (\<exists>ext more. store sc' = store sc @ ext \<and> inferred sc' = inferred sc @ more \<and>
        list_all (\<lambda>r. length (store sc) \<le> r \<and> r < length (store sc')) more)"

text \<open>The invariant of the loop of \<open>remove_empty_and_duplicate_statements\<close>, and what
  the loop has done when it ends.\<close>

definition purge_invariant :: "heap \<Rightarrow> ref list \<Rightarrow> purge_state \<Rightarrow> bool" where
  "purge_invariant h rs st \<longleftrightarrow>
     original_set st \<inter> set (deref h (cleaned_knowledge_base st)) = {} \<and>
     distinct (deref h (cleaned_knowledge_base st)) \<and>
     (\<forall>r \<in> set (cleaned_knowledge_base st). cell_positions (h ! r) \<noteq> {||}) \<and>
     (\<forall>r \<in> set rs. cell_positions (h ! r) = {||} \<or>
                  h ! r \<in> original_set st \<union> set (deref h (cleaned_knowledge_base st)))"

definition purge_result :: "heap \<Rightarrow> ref list \<Rightarrow> purge_state \<Rightarrow> purge_state \<Rightarrow> bool" where
  "purge_result h rs st st' \<longleftrightarrow>
   distinct (deref h (cleaned_knowledge_base st')) \<and>
   (\<forall>r \<in> set (cleaned_knowledge_base st'). cell_positions (h ! r) \<noteq> {||}) \<and>
   set (deref h (cleaned_knowledge_base st')) =
     set (deref h (cleaned_knowledge_base st)) \<union> {v \<in> set (deref h rs). cell_positions v \<noteq> {||}} \<and>
   duplicate_count st' + length (cleaned_knowledge_base st') =
     duplicate_count st + length (cleaned_knowledge_base st)
       + length (filter (\<lambda>v. cell_positions v \<noteq> {||}) (deref h rs))"

text \<open>Two stores for the purge: one with the empty statement twice, one with a
  statement of two cells twice.\<close>

definition two_empty_statements :: MinesweeperAI where
  "two_empty_statements =
     (fst (new_ai 3 ''brute_force'' ''First In, First Out''))
       \<lparr>objects := [new_statement {||} 0, new_statement {||} 0], knowledge_base := [0, 1]\<rparr>"

definition one_duplicate :: MinesweeperAI where
  "one_duplicate =
     (fst (new_ai 3 ''brute_force'' ''First In, First Out''))
       \<lparr>objects := [new_statement {|(0, 1), (1, 0)|} 1, new_statement {|(0, 1), (1, 0)|} 1],
        knowledge_base := [0, 1]\<rparr>"

text \<open>
  The scan of the greedy search by mine count, told as in the specification: each
  statement of the sorted list is compared with the statements after it, up to the first
  one whose cells are not a subset of its own; every pair compared before that yields
  the difference.  \<open>keep_first\<close> drops the later repetitions of a value.
\<close>

fun scan_candidates :: "heap \<Rightarrow> ref list \<Rightarrow> KnowledgeStatement list" where
  "scan_candidates h [] = []"
| "scan_candidates h (current_statement # rest) =
     map (\<lambda>next_statement. difference_statement (h ! next_statement) (h ! current_statement))
       (takeWhile (\<lambda>next_statement.
           cell_positions (h ! next_statement) |\<subseteq>| cell_positions (h ! current_statement)) rest)
     @ scan_candidates h rest"

definition keep_first :: "'a list \<Rightarrow> 'a list \<Rightarrow> 'a list" where
  "keep_first xs acc = fold (\<lambda>x ys. if x \<in> set ys then ys else ys @ [x]) xs acc"

text \<open>The order the specification names: descending by \<open>mine_count\<close> alone.\<close>

definition sorted_by_mine_count_descending :: "heap \<Rightarrow> ref list \<Rightarrow> ref list" where
  "sorted_by_mine_count_descending h rs = rev (sort_key (\<lambda>r. mine_count (h ! r)) (rev rs))"

text \<open>A scan that started from the store \<open>h\<close> with nothing inferred.\<close>

definition from_heap :: "heap \<Rightarrow> scan \<Rightarrow> bool" where
  "from_heap h sc \<longleftrightarrow> grows \<lparr>store = h, inferred = [], comparisons = 0\<rparr> sc"

definition nested_statements :: heap where
  "nested_statements =
     [new_statement {|(0, 0), (0, 1)|} 1, new_statement {|(0, 0), (0, 1), (0, 2)|} 2,
      new_statement {|(0, 0)|} 1]"

definition three_statements :: heap where
  "three_statements =
     [new_statement {|(0, 0), (0, 1), (0, 2)|} 1, new_statement {|(2, 0), (2, 1)|} 2,
      new_statement {|(0, 0)|} 0]"

text \<open>Three statements of which the first two have the same key \<open>(2, 1)\<close>.\<close>

definition tied_statements :: heap where
  "tied_statements =
     [new_statement {|(0, 0), (0, 1)|} 1, new_statement {|(1, 0), (1, 1)|} 1,
      new_statement {|(0, 0)|} 0]"

text \<open>
  What divide and conquer keeps true of its merged statements: the store extends the
  store \<open>h\<close> it started from, and every merged statement is an object of the list it
  was passed or an object allocated since.
\<close>

definition merged :: "heap \<Rightarrow> ref list \<Rightarrow> scan \<Rightarrow> bool" where
  "merged h kb sc \<longleftrightarrow>
     (\<exists>ext. store sc = h @ ext) \<and>
     (\<forall>x \<in> set (inferred sc). x \<in> set kb \<or> (length h \<le> x \<and> x < length (store sc)))"

section \<open>Reachable solver states\<close>

text \<open>
  The states a solver can be in: it is constructed, and then it ingests observations
  (\<open>add_knowledge\<close>, when the call returns) and hands out safe moves
  (\<open>make_safe_move\<close>), in any order.
\<close>

inductive reachable :: "MinesweeperAI \<Rightarrow> bool" where
  constructed: "reachable (fst (new_ai a_grid_size search_algorithm_name safe_cell_strategy))"
| ingested: "reachable ai \<Longrightarrow> add_knowledge c surrounding_mines_count ai = Some ai' \<Longrightarrow> reachable ai'"
| moved: "reachable ai \<Longrightarrow> reachable (snd (make_safe_move drawn ai))"

definition queue_invariant :: "MinesweeperAI \<Rightarrow> bool" where
  "queue_invariant ai \<longleftrightarrow>
     set (safe_cell_queue ai) \<subseteq> fset (identified_safe_cells ai) \<and> distinct (safe_cell_queue ai)"

text \<open>
  A property of statements that the derivation step preserves, and a scan whose
  inferred statements all have it.
\<close>

definition closed_under_difference :: "(KnowledgeStatement \<Rightarrow> bool) \<Rightarrow> bool" where
  "closed_under_difference Q \<longleftrightarrow>
     (\<forall>a b. Q a \<longrightarrow> Q b \<longrightarrow> cell_positions a |\<subseteq>| cell_positions b \<longrightarrow> Q (difference_statement a b))"

definition all_inferred :: "(KnowledgeStatement \<Rightarrow> bool) \<Rightarrow> scan \<Rightarrow> bool" where
  "all_inferred Q sc \<longleftrightarrow>
     (\<forall>x \<in> set (inferred sc). x < length (store sc) \<and> Q (store sc ! x))"

definition node_ok :: "(KnowledgeStatement \<Rightarrow> bool) \<Rightarrow> scan \<Rightarrow> ref list \<Rightarrow> bool" where
  "node_ok Q sc node \<longleftrightarrow> (\<forall>x \<in> set node. x < length (store sc) \<and> Q (store sc ! x))"

definition tree_all :: "(KnowledgeStatement \<Rightarrow> bool) \<Rightarrow> tree_search_state \<Rightarrow> bool" where
  "tree_all Q st \<longleftrightarrow>
     all_inferred Q (ts_scan st) \<and> (\<forall>node \<in> set (ts_frontier st). node_ok Q (ts_scan st) node)"

text \<open>
  A solver state is well formed when the knowledge base refers to objects of the store
  and no statement of the knowledge base mentions a cell outside the grid or a cell that
  is already identified as safe or as a mine.
\<close>

definition in_grid :: "int \<Rightarrow> cell \<Rightarrow> bool" where
  "in_grid a_grid_size c \<longleftrightarrow>
     0 \<le> fst c \<and> fst c < a_grid_size \<and> 0 \<le> snd c \<and> snd c < a_grid_size"

definition unresolved :: "MinesweeperAI \<Rightarrow> KnowledgeStatement \<Rightarrow> bool" where
  "unresolved ai s \<longleftrightarrow>
     (\<forall>c. c |\<in>| cell_positions s \<longrightarrow>
        in_grid (grid_size ai) c \<and> c |\<notin>| identified_safe_cells ai \<and> c |\<notin>| identified_mines ai)"

definition well_formed :: "MinesweeperAI \<Rightarrow> bool" where
  "well_formed ai \<longleftrightarrow>
     (\<forall>r \<in> set (knowledge_base ai). r < length (objects ai) \<and> unresolved ai (objects ai ! r))"

text \<open>
  A knowledge base is settled when none of its statements is empty and none has cells
  known to be safe or known to be mines: what the loop of \<open>add_knowledge\<close> leaves.
\<close>

definition settled :: "MinesweeperAI \<Rightarrow> bool" where
  "settled ai \<longleftrightarrow>
     (\<forall>r \<in> set (knowledge_base ai).
        cell_positions (objects ai ! r) \<noteq> {||} \<and>
        known_safes (objects ai ! r) = {||} \<and> known_mines (objects ai ! r) = {||})"

text \<open>The solver of the examples: a grid of 3 by 3 cells, brute force search, safe
  cells first in first out.\<close>

definition example_ai :: MinesweeperAI where
  "example_ai = fst (new_ai 3 ''brute_force'' ''First In, First Out'')"

section \<open>An ingestion that does not end\<close>

text \<open>
  On the grid of 3 by 3 cells the centre is observed twice, with the counts 9 and 19, and
  then the corner \<open>(0, 0)\<close> with the count 3.  The knowledge base then holds two
  statements about the seven remaining outer cells, with the counts 9 and 19, and one
  about the two neighbours of the corner, with the count 3.  Every statement that can
  be derived has one of four shapes, and none of them is resolved.
\<close>

definition outer_cells :: "cell fset" where
  "outer_cells = {|(0, 1), (0, 2), (1, 0), (1, 2), (2, 0), (2, 1), (2, 2)|}"

definition corner_cells :: "cell fset" where
  "corner_cells = {|(0, 1), (1, 0)|}"

definition far_cells :: "cell fset" where
  "far_cells = {|(0, 2), (1, 2), (2, 0), (2, 1), (2, 2)|}"

definition drifting :: "KnowledgeStatement \<Rightarrow> bool" where
  "drifting s \<longleftrightarrow>
     (cell_positions s = outer_cells \<and> mine_count s mod 10 = 9) \<or>
     (cell_positions s = corner_cells \<and> mine_count s mod 10 = 3) \<or>
     (cell_positions s = far_cells \<and> mine_count s mod 10 = 6) \<or>
     (cell_positions s = {||} \<and> mine_count s mod 10 = 0)"

definition twice_observed :: MinesweeperAI where
  "twice_observed = the (add_knowledge (1, 1) 19 (the (add_knowledge (1, 1) 9 example_ai)))"

definition endless :: "MinesweeperAI \<Rightarrow> python_set \<Rightarrow> bool" where
  "endless ai inferred_set \<longleftrightarrow>
     search_algorithm_method ai = Brute_force \<and>
     list_all (\<lambda>r. r < length (objects ai) \<and> drifting (objects ai ! r)) (knowledge_base ai) \<and>
     new_statement outer_cells 9 \<in> set (deref (objects ai) (knowledge_base ai)) \<and>
     new_statement outer_cells 19 \<in> set (deref (objects ai) (knowledge_base ai)) \<and>
     list_ex (\<lambda>r. cell_positions (objects ai ! r) = corner_cells) (knowledge_base ai) \<and>
     list_all (\<lambda>(hashed, r). cell_positions hashed = {||} \<or>
                 hashed \<in> set (deref (objects ai) (knowledge_base ai))) inferred_set"

section \<open>Observations of one board\<close>

text \<open>
  A board is the set of the cells that hold a mine.  A statement is true on a board
  when its count is the number of its cells that hold a mine; an observation is
  consistent with the board when the observed cell holds no mine and the count is the
  number of mines among its neighbours in the grid.
\<close>

definition true_on :: "cell fset \<Rightarrow> KnowledgeStatement \<Rightarrow> bool" where
  "true_on w s \<longleftrightarrow> mine_count s = int (fcard (cell_positions s |\<inter>| w))"

definition consistent :: "cell fset \<Rightarrow> int \<Rightarrow> cell \<Rightarrow> int \<Rightarrow> bool" where
  "consistent w a_grid_size c n \<longleftrightarrow>
     c |\<notin>| w \<and> n = int (fcard (surrounding_cells_of a_grid_size c |\<inter>| w))"

text \<open>A solver state is sound for a board when the cells it has identified are right
  and every statement of the knowledge base is true on the board.\<close>

definition sound :: "cell fset \<Rightarrow> MinesweeperAI \<Rightarrow> bool" where
  "sound w ai \<longleftrightarrow>
     identified_safe_cells ai |\<inter>| w = {||} \<and> identified_mines ai |\<subseteq>| w \<and>
     (\<forall>r \<in> set (knowledge_base ai). true_on w (objects ai ! r))"


text \<open>
  Two notions for the termination of the tree searches.  The inferred statements of a
  scan are pairwise different; and the number of nodes in the frontier minus the number
  of inferred statements, which no comparison changes (a comparison adds one node
  exactly when it adds one statement).
\<close>

definition inferred_distinct :: "scan \<Rightarrow> bool" where
  "inferred_distinct sc \<longleftrightarrow>
     list_all (\<lambda>x. x < length (store sc)) (inferred sc) \<and>
     distinct (deref (store sc) (inferred sc))"

definition excess :: "tree_search_state \<Rightarrow> int" where
  "excess st = int (length (ts_frontier st)) - int (length (inferred (ts_scan st)))"


text \<open>
  The cells of the grid, the cells of the grid that are not identified yet, and the
  statements about cells of the grid that are true on a board: a finite set, because the
  count of a true statement is determined by its cells.
\<close>

definition grid_cells :: "int \<Rightarrow> cell fset" where
  "grid_cells a_grid_size =
     fset_of_list (concat (map (\<lambda>i. map (\<lambda>j. (i, j)) [0 .. a_grid_size - 1]) [0 .. a_grid_size - 1]))"

definition undetermined :: "MinesweeperAI \<Rightarrow> cell fset" where
  "undetermined ai = grid_cells (grid_size ai) |-| (identified_safe_cells ai |\<union>| identified_mines ai)"

definition true_statements :: "cell fset \<Rightarrow> int \<Rightarrow> KnowledgeStatement set" where
  "true_statements w a_grid_size =
     {s. cell_positions s |\<subseteq>| grid_cells a_grid_size \<and> true_on w s}"

text \<open>
  What holds of every member of \<open>inferred_set\<close> during the loop: the value that was
  hashed mentions a cell that has been identified since, or the member object still has
  that value.
\<close>

definition recorded :: "MinesweeperAI \<Rightarrow> python_set \<Rightarrow> bool" where
  "recorded ai inferred_set \<longleftrightarrow>
     (\<forall>(hashed, member) \<in> set inferred_set.
        (\<exists>c. c |\<in>| cell_positions hashed \<and>
              (c |\<in>| identified_safe_cells ai \<or> c |\<in>| identified_mines ai)) \<or>
        (member < length (objects ai) \<and> objects ai ! member = hashed))"

text \<open>The measure of the loop: the cells still to identify plus the true statements
  that were never hashed into \<open>inferred_set\<close>.\<close>

definition remaining :: "cell fset \<Rightarrow> MinesweeperAI \<Rightarrow> python_set \<Rightarrow> nat" where
  "remaining w ai inferred_set =
     fcard (undetermined ai) + card (true_statements w (grid_size ai) - fst ` set inferred_set)"


text \<open>
  The states a solver can be in when every observation it ingests is consistent with the
  board \<open>w\<close>; and the states of the loop of \<open>add_knowledge\<close> in such an ingestion:
  the state in which the loop is entered, and the state after each pass that reports a
  change.
\<close>

inductive reachable_on :: "cell fset \<Rightarrow> MinesweeperAI \<Rightarrow> bool" for w where
  constructed_on: "reachable_on w (fst (new_ai a_grid_size search_algorithm_name safe_cell_strategy))"
| ingested_on: "reachable_on w ai \<Longrightarrow> consistent w (grid_size ai) c surrounding_mines_count \<Longrightarrow>
     add_knowledge c surrounding_mines_count ai = Some ai' \<Longrightarrow> reachable_on w ai'"
| moved_on: "reachable_on w ai \<Longrightarrow> reachable_on w (snd (make_safe_move drawn ai))"

inductive loop_state :: "cell fset \<Rightarrow> MinesweeperAI \<Rightarrow> python_set \<Rightarrow> bool" for w where
  entered: "reachable_on w ai \<Longrightarrow> consistent w (grid_size ai) c surrounding_mines_count \<Longrightarrow>
     loop_state w (add_statement c surrounding_mines_count ai)
       (python_set_update (objects (add_statement c surrounding_mines_count ai))
          (knowledge_base (add_statement c surrounding_mines_count ai)) [])"
| repeated: "loop_state w ai inferred_set \<Longrightarrow>
     propagation_pass ai inferred_set = Some (ai', inferred_set', True) \<Longrightarrow>
     loop_state w ai' inferred_set'"

section \<open>Properties of knowledge statements\<close>

text \<open>
  Claim C6 (mutation contract).  Marking a contained cell as a mine removes the cell and
  lowers \<open>mine_count\<close> by exactly one; marking a contained cell as safe removes the
  cell and keeps \<open>mine_count\<close>; with a cell that is not in the statement either
  operation returns the statement as it was; and both operations are idempotent.
\<close>

theorem mutation_contract:
  "(c |\<in>| cell_positions s \<longrightarrow>
      cell_positions (statement_mark_cell_as_mine c s) = cell_positions s |-| {|c|} \<and>
      mine_count (statement_mark_cell_as_mine c s) = mine_count s - 1 \<and>
      cell_positions (statement_mark_cell_as_safe c s) = cell_positions s |-| {|c|} \<and>
      mine_count (statement_mark_cell_as_safe c s) = mine_count s) \<and>
   (c |\<notin>| cell_positions s \<longrightarrow>
      statement_mark_cell_as_mine c s = s \<and> statement_mark_cell_as_safe c s = s) \<and>
   statement_mark_cell_as_mine c (statement_mark_cell_as_mine c s) = statement_mark_cell_as_mine c s \<and>
   statement_mark_cell_as_safe c (statement_mark_cell_as_safe c s) = statement_mark_cell_as_safe c s"
  by (simp add: statement_mark_cell_as_mine_def statement_mark_cell_as_safe_def)

theorem mutation_contract_witness:
  "(1, 1) |\<in>| cell_positions (new_statement {|(1, 1), (1, 2)|} 1) \<and>
   statement_mark_cell_as_mine (1, 1) (new_statement {|(1, 1), (1, 2)|} 1) = new_statement {|(1, 2)|} 0 \<and>
   statement_mark_cell_as_safe (1, 1) (new_statement {|(1, 1), (1, 2)|} 1) = new_statement {|(1, 2)|} 1 \<and>
   (0, 0) |\<notin>| cell_positions (new_statement {|(1, 1), (1, 2)|} 1) \<and>
   statement_mark_cell_as_mine (0, 0) (new_statement {|(1, 1), (1, 2)|} 1) = new_statement {|(1, 1), (1, 2)|} 1 \<and>
   statement_mark_cell_as_safe (0, 0) (new_statement {|(1, 1), (1, 2)|} 1) = new_statement {|(1, 1), (1, 2)|} 1"
  using mutation_contract [of "(1, 1)" "new_statement {|(1, 1), (1, 2)|} 1"]
    mutation_contract [of "(0, 0)" "new_statement {|(1, 1), (1, 2)|} 1"]
  by (auto simp: new_statement_def)

section \<open>Scans only allocate\<close>

lemma grows_refl: "grows sc sc"
  by (simp add: grows_def)

lemma grows_trans: "grows a b \<Longrightarrow> grows b c \<Longrightarrow> grows a c"
proof -
  assume "grows a b" "grows b c"
  then obtain e1 m1 e2 m2 where
    1: "store b = store a @ e1" "inferred b = inferred a @ m1"
       "list_all (\<lambda>r. length (store a) \<le> r \<and> r < length (store b)) m1" and
    2: "store c = store b @ e2" "inferred c = inferred b @ m2"
       "list_all (\<lambda>r. length (store b) \<le> r \<and> r < length (store c)) m2"
    unfolding grows_def by blast
  have "store c = store a @ (e1 @ e2)" "inferred c = inferred a @ (m1 @ m2)"
    using 1 2 by simp_all
  moreover have "list_all (\<lambda>r. length (store a) \<le> r \<and> r < length (store c)) (m1 @ m2)"
    using 1 2 by (auto simp: list_all_iff)
  ultimately show ?thesis unfolding grows_def by blast
qed

lemma grows_comparisons [simp]: "grows sc (sc'\<lparr>comparisons := n\<rparr>) = grows sc sc'"
  "grows (sc\<lparr>comparisons := n\<rparr>) sc' = grows sc sc'"
  by (simp_all add: grows_def)

lemma grows_valid:
  "grows sc sc' \<Longrightarrow> valid_refs (store sc) (inferred sc) \<Longrightarrow> valid_refs (store sc') (inferred sc')"
  by (fastforce simp: grows_def valid_refs_def list_all_iff)

lemma grows_nth: "grows sc sc' \<Longrightarrow> r < length (store sc) \<Longrightarrow> store sc' ! r = store sc ! r"
  by (auto simp: grows_def nth_append)

lemma grows_length: "grows sc sc' \<Longrightarrow> length (store sc) \<le> length (store sc')"
  by (auto simp: grows_def)

lemma grows_deref:
  "grows sc sc' \<Longrightarrow> valid_refs (store sc) rs \<Longrightarrow> deref (store sc') rs = deref (store sc) rs"
  by (auto simp: grows_def valid_refs_def list_all_iff deref_def nth_append)

lemma grows_mono:
  assumes "grows sc sc'" "valid_refs (store sc) (inferred sc)"
  shows "set (deref (store sc) (inferred sc)) \<subseteq> set (deref (store sc') (inferred sc'))"
proof -
  from assms(1) obtain more where "inferred sc' = inferred sc @ more"
    by (auto simp: grows_def)
  then have "set (deref (store sc') (inferred sc)) \<subseteq> set (deref (store sc') (inferred sc'))"
    by (auto simp: deref_def)
  with grows_deref [OF assms] show ?thesis by simp
qed

lemma append_if_new_grows: "grows sc (append_if_new v sc)"
  by (simp add: append_if_new_def grows_def)

lemma append_if_new_member:
  "valid_refs (store sc) (inferred sc) \<Longrightarrow>
   v \<in> set (deref (store (append_if_new v sc)) (inferred (append_if_new v sc)))"
  by (auto simp: append_if_new_def deref_def valid_refs_def list_all_iff nth_append)

lemma brute_force_compare_grows: "grows sc (brute_force_compare a b sc)"
  using append_if_new_grows [of "sc\<lparr>comparisons := comparisons sc + 1\<rparr>"]
  by (simp add: brute_force_compare_def Let_def grows_refl)

lemma brute_force_inner_grows: "grows sc (brute_force_inner a bs sc)"
  by (induction bs arbitrary: sc)
     (auto intro: grows_refl grows_trans brute_force_compare_grows)

lemma brute_force_outer_grows: "grows sc (brute_force_outer as kb sc)"
  by (induction as arbitrary: sc)
     (auto intro: grows_refl grows_trans brute_force_inner_grows)

lemma brute_force_compare_member:
  assumes "valid_refs (store sc) (inferred sc)"
    and "cell_positions (store sc ! a) |\<subseteq>| cell_positions (store sc ! b)"
  shows "difference_statement (store sc ! a) (store sc ! b)
           \<in> set (deref (store (brute_force_compare a b sc)) (inferred (brute_force_compare a b sc)))"
  using assms append_if_new_member [of "sc\<lparr>comparisons := comparisons sc + 1\<rparr>"]
  by (simp add: brute_force_compare_def Let_def)

lemma brute_force_inner_member:
  assumes "valid_refs (store sc) (inferred sc)" "a < length (store sc)"
    and "b \<in> set bs" "b < length (store sc)"
    and "cell_positions (store sc ! a) |\<subseteq>| cell_positions (store sc ! b)"
  shows "difference_statement (store sc ! a) (store sc ! b)
           \<in> set (deref (store (brute_force_inner a bs sc)) (inferred (brute_force_inner a bs sc)))"
  using assms
proof (induction bs arbitrary: sc)
  case Nil
  then show ?case by simp
next
  case (Cons x bs)
  let ?sc = "brute_force_compare a x sc"
  have g: "grows sc ?sc" by (rule brute_force_compare_grows)
  have v: "valid_refs (store ?sc) (inferred ?sc)" using g Cons.prems(1) by (rule grows_valid)
  show ?case
  proof (cases "b = x")
    case True
    have "difference_statement (store sc ! a) (store sc ! b) \<in> set (deref (store ?sc) (inferred ?sc))"
      using brute_force_compare_member [OF Cons.prems(1), of a b] Cons.prems(5) True by simp
    then show ?thesis
      using grows_mono [OF brute_force_inner_grows [of ?sc a bs] v] by auto
  next
    case False
    then have "b \<in> set bs" using Cons.prems(3) by simp
    moreover have "store ?sc ! a = store sc ! a" "store ?sc ! b = store sc ! b"
      using g Cons.prems by (auto simp: grows_nth)
    moreover have "a < length (store ?sc)" "b < length (store ?sc)"
      using grows_length [OF g] Cons.prems by auto
    ultimately show ?thesis
      using Cons.IH [of ?sc] v Cons.prems(5) by simp
  qed
qed

text \<open>Every subset pair of the scanned lists leaves its difference among the inferred
  statements.\<close>

lemma brute_force_outer_member:
  assumes "valid_refs (store sc) (inferred sc)" "a \<in> set as" "a < length (store sc)"
    and "b \<in> set kb" "b < length (store sc)"
    and "cell_positions (store sc ! a) |\<subseteq>| cell_positions (store sc ! b)"
  shows "difference_statement (store sc ! a) (store sc ! b)
           \<in> set (deref (store (brute_force_outer as kb sc)) (inferred (brute_force_outer as kb sc)))"
  using assms
proof (induction as arbitrary: sc)
  case Nil
  then show ?case by simp
next
  case (Cons x as)
  let ?sc = "brute_force_inner x kb sc"
  have g: "grows sc ?sc" by (rule brute_force_inner_grows)
  have v: "valid_refs (store ?sc) (inferred ?sc)" using g Cons.prems(1) by (rule grows_valid)
  show ?case
  proof (cases "a = x")
    case True
    have "difference_statement (store sc ! a) (store sc ! b) \<in> set (deref (store ?sc) (inferred ?sc))"
      using brute_force_inner_member [of sc a b kb] Cons.prems True by simp
    then show ?thesis
      using grows_mono [OF brute_force_outer_grows [of ?sc as kb] v] by auto
  next
    case False
    then have "a \<in> set as" using Cons.prems(2) by simp
    moreover have "store ?sc ! a = store sc ! a" "store ?sc ! b = store sc ! b"
      using g Cons.prems by (auto simp: grows_nth)
    moreover have "a < length (store ?sc)" "b < length (store ?sc)"
      using grows_length [OF g] Cons.prems by auto
    ultimately show ?thesis
      using Cons.IH [of ?sc] v Cons.prems by simp
  qed
qed

lemma brute_force_search_member:
  assumes "valid_refs h kb"
    and "a \<in> set kb" and "b \<in> set kb"
    and "cell_positions (h ! a) |\<subseteq>| cell_positions (h ! b)"
  shows "difference_statement (h ! a) (h ! b)
           \<in> set (deref (result_store (brute_force_search g h kb n))
                    (result_inferred (brute_force_search g h kb n)))"
proof -
  let ?sc = "\<lparr>store = h, inferred = [], comparisons = n\<rparr>"
  have "a < length h" "b < length h"
    using assms by (auto simp: valid_refs_def list_all_iff)
  then show ?thesis
    using brute_force_outer_member [of ?sc a kb b kb] assms
    by (simp add: brute_force_search_def finish_search_def valid_refs_def)
qed

text \<open>
  Claim C5 (the exhaustive strategy is complete for subset pairs).  For every two
  statements \<open>A\<close>, \<open>B\<close> of the knowledge base passed to \<open>brute_force_search\<close> with
  \<open>A.cell_positions \<subseteq> B.cell_positions\<close>, the returned list contains a statement
  with the cells \<open>B.cell_positions - A.cell_positions\<close> and the count
  \<open>B.mine_count - A.mine_count\<close>.  The witness is the example of the specification:
  from \<open>{(0,0),(0,1)} = 1\<close> and \<open>{(0,0),(0,1),(0,2)} = 2\<close> it infers \<open>{(0,2)} = 1\<close>.
\<close>

theorem brute_force_complete:
  assumes "valid_refs h kb"
    and "a \<in> set kb" and "b \<in> set kb"
    and "cell_positions (h ! a) |\<subseteq>| cell_positions (h ! b)"
  shows "new_statement (cell_positions (h ! b) |-| cell_positions (h ! a))
             (mine_count (h ! b) - mine_count (h ! a))
           \<in> set (deref (result_store (brute_force_search g h kb n))
                    (result_inferred (brute_force_search g h kb n)))"
  using brute_force_search_member [OF assms] by (simp add: difference_statement_def)

theorem brute_force_complete_witness:
  "new_statement {|(0, 2)|} 1
     \<in> set (deref
         (result_store (brute_force_search new_stat_generator
            [new_statement {|(0, 0), (0, 1)|} 1, new_statement {|(0, 0), (0, 1), (0, 2)|} 2] [0, 1] 0))
         (result_inferred (brute_force_search new_stat_generator
            [new_statement {|(0, 0), (0, 1)|} 1, new_statement {|(0, 0), (0, 1), (0, 2)|} 2] [0, 1] 0)))"
proof -
  let ?h = "[new_statement {|(0, 0), (0, 1)|} 1, new_statement {|(0, 0), (0, 1), (0, 2)|} 2]"
  have v: "valid_refs ?h [0, 1]" by (simp add: valid_refs_def)
  have s: "cell_positions (?h ! 0) |\<subseteq>| cell_positions (?h ! 1)"
    by (simp add: new_statement_def)
  have e: "new_statement (cell_positions (?h ! 1) |-| cell_positions (?h ! 0))
             (mine_count (?h ! 1) - mine_count (?h ! 0)) = new_statement {|(0, 2)|} 1"
    by (auto simp: new_statement_def)
  show ?thesis
    using brute_force_complete [OF v _ _ s, of new_stat_generator 0] e by simp
qed

section \<open>Selection by name\<close>

text \<open>
  Claim C9 (unknown key fallback).  For every algorithm name that is not one of the seven
  keys, \<open>select_algorithm\<close> returns the brute force search and prints one line that
  reports the fallback; for every strategy name that is not one of the four keys,
  \<open>select_strategy\<close> returns the first-in-first-out strategy and prints the
  corresponding line.  Both are ordinary returns.
\<close>

theorem unknown_key_fallback:
  "(algorithm_name \<notin> {''brute_force'', ''divide_and_conquer'', ''dynamic_programming'',
        ''greedy_algorithm_size'', ''greedy_algorithm_minecount'', ''bfs'', ''dfs''} \<longrightarrow>
      select_algorithm algorithm_name =
        (Brute_force,
         [''ERROR: Algorithm '' @ [CHR 0x27] @ algorithm_name @ [CHR 0x27]
            @ '' not found, defaulting to Brute Force''])) \<and>
   (strategy_name \<notin> {''First In, First Out'', ''Last In, First Out'', ''Sorted by position'',
        ''Random''} \<longrightarrow>
      select_strategy strategy_name =
        (Select_fifo,
         [''ERROR: Strategy '' @ [CHR 0x27] @ strategy_name @ [CHR 0x27]
            @ '' not found, defaulting to FIFO'']))"
  by (simp add: select_algorithm_def algorithms_def select_strategy_def strategies_def)

theorem unknown_key_fallback_witness:
  "select_algorithm ''BFS'' =
     (Brute_force, [''ERROR: Algorithm 'BFS' not found, defaulting to Brute Force'']) \<and>
   select_strategy ''FIFO'' =
     (Select_fifo, [''ERROR: Strategy 'FIFO' not found, defaulting to FIFO''])"
  using unknown_key_fallback [of "''BFS''" "''FIFO''"] by simp

section \<open>Removing empty and duplicate statements\<close>

lemma purge_loop_correct:
  "purge_invariant h rs st \<Longrightarrow> purge_result h rs st (purge_loop h rs st)"
proof (induction rs arbitrary: st)
  case Nil
  then show ?case by (simp add: purge_invariant_def purge_result_def deref_def)
next
  case (Cons r rs)
  consider (empty) "cell_positions (h ! r) = {||}"
    | (dup) "cell_positions (h ! r) \<noteq> {||}" "h ! r \<notin> original_set st"
    | (keep) "cell_positions (h ! r) \<noteq> {||}" "h ! r \<in> original_set st"
    by blast
  then show ?case
  proof cases
    case empty
    then have step: "purge_loop h (r # rs) st = purge_loop h rs st" by simp
    have "purge_invariant h rs st"
      using Cons.prems by (simp add: purge_invariant_def)
    from Cons.IH [OF this] show ?thesis
      unfolding step using empty by (simp add: purge_result_def deref_def) blast
  next
    case dup
    let ?st = "st\<lparr>duplicate_count := duplicate_count st + 1\<rparr>"
    have step: "purge_loop h (r # rs) st = purge_loop h rs ?st" using dup by simp
    have "purge_invariant h rs ?st"
      using Cons.prems by (simp add: purge_invariant_def)
    moreover have "h ! r \<in> set (deref h (cleaned_knowledge_base st))"
      using Cons.prems dup by (simp add: purge_invariant_def)
    ultimately show ?thesis
      unfolding step using Cons.IH [of ?st] dup
      by (simp add: purge_result_def deref_def) blast
  next
    case keep
    let ?st = "st\<lparr>cleaned_knowledge_base := cleaned_knowledge_base st @ [r],
                      original_set := original_set st - {h ! r}\<rparr>"
    have step: "purge_loop h (r # rs) st = purge_loop h rs ?st" using keep by simp
    have notin: "h ! r \<notin> set (deref h (cleaned_knowledge_base st))"
      using Cons.prems keep by (auto simp: purge_invariant_def)
    have "purge_invariant h rs ?st"
      unfolding purge_invariant_def
    proof (intro conjI)
      show "original_set ?st \<inter> set (deref h (cleaned_knowledge_base ?st)) = {}"
        using Cons.prems by (auto simp: purge_invariant_def deref_def)
      show "distinct (deref h (cleaned_knowledge_base ?st))"
        using Cons.prems notin by (simp add: purge_invariant_def deref_def)
      show "\<forall>r \<in> set (cleaned_knowledge_base ?st). cell_positions (h ! r) \<noteq> {||}"
        using Cons.prems keep by (simp add: purge_invariant_def)
      show "\<forall>r \<in> set rs. cell_positions (h ! r) = {||} \<or>
                  h ! r \<in> original_set ?st \<union> set (deref h (cleaned_knowledge_base ?st))"
        using Cons.prems by (auto simp: purge_invariant_def deref_def)
    qed
    from Cons.IH [OF this] show ?thesis
      unfolding step using keep
      by (simp add: purge_result_def deref_def) blast
  qed
qed


lemma count_list_distinct: "distinct xs \<Longrightarrow> x \<in> set xs \<Longrightarrow> count_list xs x = 1"
  by (induction xs) auto

lemma purge_loop_initial:
  "purge_invariant h rs \<lparr>original_set = set (deref h rs), cleaned_knowledge_base = [], duplicate_count = 0\<rparr>"
  by (simp add: purge_invariant_def deref_def)

lemma remove_empty_and_duplicate_statements_result:
  "purge_result (objects ai) (knowledge_base ai)
     \<lparr>original_set = set (deref (objects ai) (knowledge_base ai)), cleaned_knowledge_base = [], duplicate_count = 0\<rparr>
     (purge_loop (objects ai) (knowledge_base ai)
        \<lparr>original_set = set (deref (objects ai) (knowledge_base ai)), cleaned_knowledge_base = [], duplicate_count = 0\<rparr>)"
  by (rule purge_loop_correct [OF purge_loop_initial])

lemma purge_loop_first:
  assumes "original_set st = A - {v \<in> set (deref h pre). cell_positions v \<noteq> {||}}"
    and "set (deref h rs) \<subseteq> A"
  shows "cleaned_knowledge_base (purge_loop h rs st) =
     cleaned_knowledge_base st @
     map (\<lambda>i. rs ! i)
       (filter (\<lambda>i. cell_positions (h ! (rs ! i)) \<noteq> {||} \<and>
                    h ! (rs ! i) \<notin> set (deref h pre) \<union> set (deref h (take i rs)))
          [0..<length rs])"
  using assms
proof (induction rs arbitrary: st pre)
  case Nil
  then show ?case by simp
next
  case (Cons r rs)
  let ?P = "\<lambda>pre rs i. cell_positions (h ! (rs ! i)) \<noteq> {||} \<and>
                    h ! (rs ! i) \<notin> set (deref h pre) \<union> set (deref h (take i rs))"
  have upt: "[0..<length (r # rs)] = 0 # map Suc [0..<length rs]"
    by (simp add: upt_conv_Cons map_Suc_upt del: upt_Suc)
  have shift: "map (\<lambda>i. (r # rs) ! i) (filter (?P pre (r # rs)) (map Suc [0..<length rs]))
      = map (\<lambda>i. rs ! i) (filter (?P (pre @ [r]) rs) [0..<length rs])"
    by (simp add: filter_map comp_def deref_def conj_left_commute)
  have A: "set (deref h rs) \<subseteq> A" "h ! r \<in> A"
    using Cons.prems(2) by (simp_all add: deref_def)
  consider (empty) "cell_positions (h ! r) = {||}"
    | (dup) "cell_positions (h ! r) \<noteq> {||}" "h ! r \<notin> original_set st"
    | (keep) "cell_positions (h ! r) \<noteq> {||}" "h ! r \<in> original_set st"
    by blast
  then show ?case
  proof cases
    case empty
    have step: "purge_loop h (r # rs) st = purge_loop h rs st" using empty by simp
    have o: "original_set st = A - {v \<in> set (deref h (pre @ [r])). cell_positions v \<noteq> {||}}"
      using Cons.prems(1) empty by (auto simp: deref_def)
    have p0: "\<not> ?P pre (r # rs) 0" using empty by simp
    show ?thesis
      unfolding step Cons.IH [OF o A(1)] upt using p0 shift by simp
  next
    case dup
    let ?st = "st\<lparr>duplicate_count := duplicate_count st + 1\<rparr>"
    have step: "purge_loop h (r # rs) st = purge_loop h rs ?st" using dup by simp
    have seen: "h ! r \<in> set (deref h pre)"
      using Cons.prems(1) dup A(2) by auto
    have o: "original_set ?st = A - {v \<in> set (deref h (pre @ [r])). cell_positions v \<noteq> {||}}"
      using Cons.prems(1) seen by (auto simp: deref_def)
    have p0: "\<not> ?P pre (r # rs) 0" using seen by simp
    show ?thesis
      unfolding step Cons.IH [OF o A(1)] upt using p0 shift by simp
  next
    case keep
    let ?st = "st\<lparr>cleaned_knowledge_base := cleaned_knowledge_base st @ [r],
                      original_set := original_set st - {h ! r}\<rparr>"
    have step: "purge_loop h (r # rs) st = purge_loop h rs ?st" using keep by simp
    have fresh: "h ! r \<notin> set (deref h pre)"
      using Cons.prems(1) keep by auto
    have o: "original_set ?st = A - {v \<in> set (deref h (pre @ [r])). cell_positions v \<noteq> {||}}"
      using Cons.prems(1) keep by (auto simp: deref_def)
    have p0: "?P pre (r # rs) 0" using keep fresh by (simp add: deref_def)
    show ?thesis
      unfolding step Cons.IH [OF o A(1)] upt using p0 shift by simp
  qed
qed

lemma remove_empty_and_duplicate_statements_first:
  "knowledge_base (remove_empty_and_duplicate_statements ai) =
     map (\<lambda>i. knowledge_base ai ! i)
       (filter (\<lambda>i. cell_positions (objects ai ! (knowledge_base ai ! i)) \<noteq> {||} \<and>
                    objects ai ! (knowledge_base ai ! i)
                      \<notin> set (deref (objects ai) (take i (knowledge_base ai))))
          [0..<length (knowledge_base ai)])"
  using purge_loop_first [of "\<lparr>original_set = set (deref (objects ai) (knowledge_base ai)),
        cleaned_knowledge_base = [], duplicate_count = 0\<rparr>"
      "set (deref (objects ai) (knowledge_base ai))" "objects ai" "[]" "knowledge_base ai"]
  by (simp add: remove_empty_and_duplicate_statements_def Let_def deref_def)

text \<open>
  Claim C8 as stated fails for empty statements: a store that holds the empty statement
  twice is left with no occurrence of it, not with one, and the duplicate counter does
  not move.
\<close>

theorem purge_counterexample:
  "count_list (deref (objects two_empty_statements) (knowledge_base two_empty_statements))
      (new_statement {||} 0) = 2 \<and>
   knowledge_base (remove_empty_and_duplicate_statements two_empty_statements) = [] \<and>
   duplicate_inferences_total (stat_generator (remove_empty_and_duplicate_statements two_empty_statements))
     = duplicate_inferences_total (stat_generator two_empty_statements)"
  by (simp add: two_empty_statements_def remove_empty_and_duplicate_statements_def deref_def
      new_statement_def update_duplicate_inferences_def update_knowledge_base_size_def)

text \<open>
  Claim C8, amended (purge).  The purge changes no statement object.  The new knowledge
  base is the old one without some of its entries: it keeps, in their order, exactly the
  entries that are not empty and whose value does not occur at an earlier position of the
  old knowledge base, so that equal statements collapse to the first of them.  Afterwards
  the knowledge base holds no empty statement and no two structurally equal statements;
  every non-empty statement of the old knowledge base occurs in the new one exactly once;
  and the duplicate counter grows by the number of non-empty occurrences that were
  removed.  Empty statements are removed without being counted.
\<close>

theorem purge_correct:
  "objects (remove_empty_and_duplicate_statements ai) = objects ai \<and>
   knowledge_base (remove_empty_and_duplicate_statements ai) =
     map (\<lambda>i. knowledge_base ai ! i)
       (filter (\<lambda>i. cell_positions (objects ai ! (knowledge_base ai ! i)) \<noteq> {||} \<and>
                    objects ai ! (knowledge_base ai ! i)
                      \<notin> set (deref (objects ai) (take i (knowledge_base ai))))
          [0..<length (knowledge_base ai)]) \<and>
   (\<forall>s \<in> set (deref (objects (remove_empty_and_duplicate_statements ai))
                 (knowledge_base (remove_empty_and_duplicate_statements ai))).
       cell_positions s \<noteq> {||}) \<and>
   distinct (deref (objects (remove_empty_and_duplicate_statements ai))
               (knowledge_base (remove_empty_and_duplicate_statements ai))) \<and>
   (\<forall>s \<in> set (deref (objects ai) (knowledge_base ai)).
       cell_positions s \<noteq> {||} \<longrightarrow>
       count_list (deref (objects (remove_empty_and_duplicate_statements ai))
                     (knowledge_base (remove_empty_and_duplicate_statements ai))) s = 1) \<and>
   duplicate_inferences_total (stat_generator (remove_empty_and_duplicate_statements ai))
       + length (knowledge_base (remove_empty_and_duplicate_statements ai)) =
     duplicate_inferences_total (stat_generator ai)
       + length (filter (\<lambda>s. cell_positions s \<noteq> {||}) (deref (objects ai) (knowledge_base ai)))"
proof -
  define st0 where "st0 = \<lparr>original_set = set (deref (objects ai) (knowledge_base ai)),
      cleaned_knowledge_base = [], duplicate_count = 0\<rparr>"
  define st where "st = purge_loop (objects ai) (knowledge_base ai) st0"
  define after where "after = deref (objects ai) (cleaned_knowledge_base st)"
  define before where "before = deref (objects ai) (knowledge_base ai)"
  have kb: "knowledge_base (remove_empty_and_duplicate_statements ai) = cleaned_knowledge_base st"
    and ob: "objects (remove_empty_and_duplicate_statements ai) = objects ai"
    and du: "duplicate_inferences_total (stat_generator (remove_empty_and_duplicate_statements ai)) =
             duplicate_inferences_total (stat_generator ai) + duplicate_count st"
    by (simp_all add: st_def st0_def remove_empty_and_duplicate_statements_def Let_def
        update_duplicate_inferences_def update_knowledge_base_size_def)
  have "purge_result (objects ai) (knowledge_base ai) st0 st"
    unfolding st_def st0_def by (rule remove_empty_and_duplicate_statements_result)
  then have d: "distinct after"
    and n: "\<forall>r \<in> set (cleaned_knowledge_base st). cell_positions (objects ai ! r) \<noteq> {||}"
    and s: "set after = {v \<in> set before. cell_positions v \<noteq> {||}}"
    and c: "duplicate_count st + length (cleaned_knowledge_base st) =
            length (filter (\<lambda>v. cell_positions v \<noteq> {||}) before)"
    by (simp_all add: purge_result_def after_def before_def st0_def deref_def)
  have 1: "\<forall>s \<in> set after. cell_positions s \<noteq> {||}"
    using n by (auto simp: after_def deref_def)
  have 3: "\<forall>s \<in> set before. cell_positions s \<noteq> {||} \<longrightarrow> count_list after s = 1"
    using s d by (auto simp: count_list_distinct)
  have 0: "cleaned_knowledge_base st =
     map (\<lambda>i. knowledge_base ai ! i)
       (filter (\<lambda>i. cell_positions (objects ai ! (knowledge_base ai ! i)) \<noteq> {||} \<and>
                    objects ai ! (knowledge_base ai ! i)
                      \<notin> set (deref (objects ai) (take i (knowledge_base ai))))
          [0..<length (knowledge_base ai)])"
    using remove_empty_and_duplicate_statements_first [of ai] unfolding kb .
  have rest: "(\<forall>s \<in> set after. cell_positions s \<noteq> {||}) \<and> distinct after \<and>
     (\<forall>s \<in> set before. cell_positions s \<noteq> {||} \<longrightarrow> count_list after s = 1) \<and>
     duplicate_inferences_total (stat_generator ai) + duplicate_count st
         + length (cleaned_knowledge_base st) =
       duplicate_inferences_total (stat_generator ai)
         + length (filter (\<lambda>s. cell_positions s \<noteq> {||}) before)"
    using 1 d 3 c by simp
  show ?thesis
    unfolding kb ob du using 0 rest unfolding after_def before_def by blast
qed

theorem purge_correct_witness:
  "knowledge_base one_duplicate = [0, 1] \<and>
   knowledge_base (remove_empty_and_duplicate_statements one_duplicate) = [0] \<and>
   deref (objects (remove_empty_and_duplicate_statements one_duplicate))
      (knowledge_base (remove_empty_and_duplicate_statements one_duplicate))
     = [new_statement {|(0, 1), (1, 0)|} 1] \<and>
   duplicate_inferences_total (stat_generator (remove_empty_and_duplicate_statements one_duplicate))
     = duplicate_inferences_total (stat_generator one_duplicate) + 1"
  using purge_correct [of one_duplicate]
  by (simp add: one_duplicate_def remove_empty_and_duplicate_statements_def deref_def
      new_statement_def update_duplicate_inferences_def update_knowledge_base_size_def)

section \<open>The greedy search by mine count\<close>

lemma keep_first_append: "keep_first (xs @ ys) acc = keep_first ys (keep_first xs acc)"
  by (simp add: keep_first_def)

lemma append_if_new_deref:
  "valid_refs (store sc) (inferred sc) \<Longrightarrow>
   deref (store (append_if_new v sc)) (inferred (append_if_new v sc))
     = keep_first [v] (deref (store sc) (inferred sc))"
  by (auto simp: append_if_new_def keep_first_def deref_def valid_refs_def list_all_iff nth_append)

lemma append_if_new_comparisons [simp]:
  "append_if_new v (sc\<lparr>comparisons := n\<rparr>) = (append_if_new v sc)\<lparr>comparisons := n\<rparr>"
  by (simp add: append_if_new_def)

lemma greedy_minecount_inner_grows: "grows sc (greedy_minecount_inner cur rest sc)"
proof (induction rest arbitrary: sc)
  case Nil
  show ?case by (simp add: grows_refl)
next
  case (Cons nxt rest)
  show ?case
  proof (cases "cell_positions (store sc ! nxt) |\<subseteq>| cell_positions (store sc ! cur)")
    case True
    let ?sc = "append_if_new (difference_statement (store sc ! nxt) (store sc ! cur)) sc"
    have "grows sc (?sc\<lparr>comparisons := comparisons sc + 1\<rparr>)"
      by (simp add: append_if_new_grows)
    from grows_trans [OF this Cons.IH] show ?thesis using True by (simp add: Let_def)
  next
    case False
    then show ?thesis by (simp add: Let_def grows_refl)
  qed
qed

lemma from_heap_initial: "from_heap h \<lparr>store = h, inferred = [], comparisons = n\<rparr>"
  by (simp add: from_heap_def grows_def)

lemma from_heap_grows: "from_heap h sc \<Longrightarrow> grows sc sc' \<Longrightarrow> from_heap h sc'"
  unfolding from_heap_def by (rule grows_trans)

lemma from_heap_nth: "from_heap h sc \<Longrightarrow> r < length h \<Longrightarrow> store sc ! r = h ! r"
  unfolding from_heap_def by (drule grows_nth) auto

lemma from_heap_valid: "from_heap h sc \<Longrightarrow> valid_refs (store sc) (inferred sc)"
  unfolding from_heap_def by (drule grows_valid) (auto simp: valid_refs_def)

lemma from_heap_fresh: "from_heap h sc \<Longrightarrow> r \<in> set (inferred sc) \<Longrightarrow> length h \<le> r"
  by (auto simp: from_heap_def grows_def list_all_iff)

lemma from_heap_take: "from_heap h sc \<Longrightarrow> take (length h) (store sc) = h"
  by (auto simp: from_heap_def grows_def)

lemma greedy_minecount_inner_deref:
  assumes "from_heap h sc" "cur < length h" "valid_refs h rest"
  shows "deref (store (greedy_minecount_inner cur rest sc)) (inferred (greedy_minecount_inner cur rest sc))
     = keep_first
         (map (\<lambda>nxt. difference_statement (h ! nxt) (h ! cur))
            (takeWhile (\<lambda>nxt. cell_positions (h ! nxt) |\<subseteq>| cell_positions (h ! cur)) rest))
         (deref (store sc) (inferred sc))"
  using assms
proof (induction rest arbitrary: sc)
  case Nil
  show ?case by (simp add: keep_first_def)
next
  case (Cons nxt rest)
  have n: "nxt < length h" and r: "valid_refs h rest"
    using Cons.prems(3) by (simp_all add: valid_refs_def)
  have eq: "store sc ! nxt = h ! nxt" "store sc ! cur = h ! cur"
    using from_heap_nth [OF Cons.prems(1)] n Cons.prems(2) by simp_all
  show ?case
  proof (cases "cell_positions (h ! nxt) |\<subseteq>| cell_positions (h ! cur)")
    case True
    let ?v = "difference_statement (h ! nxt) (h ! cur)"
    let ?sc = "(append_if_new ?v sc)\<lparr>comparisons := comparisons sc + 1\<rparr>"
    have g: "grows sc ?sc" by (simp add: append_if_new_grows)
    have d: "deref (store ?sc) (inferred ?sc) = keep_first [?v] (deref (store sc) (inferred sc))"
      using append_if_new_deref [OF from_heap_valid [OF Cons.prems(1)], of ?v] by simp
    have "greedy_minecount_inner cur (nxt # rest) sc = greedy_minecount_inner cur rest ?sc"
      using True eq by (simp add: Let_def)
    then show ?thesis
      using Cons.IH [OF from_heap_grows [OF Cons.prems(1) g] Cons.prems(2) r] True d
      by (simp add: keep_first_def)
  next
    case False
    then show ?thesis using eq by (simp add: Let_def keep_first_def)
  qed
qed

lemma greedy_minecount_outer_grows: "grows sc (greedy_minecount_outer rs sc)"
  by (induction rs arbitrary: sc)
     (auto intro: grows_refl grows_trans greedy_minecount_inner_grows)

lemma greedy_minecount_outer_deref:
  assumes "from_heap h sc" "valid_refs h rs"
  shows "deref (store (greedy_minecount_outer rs sc)) (inferred (greedy_minecount_outer rs sc))
     = keep_first (scan_candidates h rs) (deref (store sc) (inferred sc))"
  using assms
proof (induction rs arbitrary: sc)
  case Nil
  show ?case by (simp add: keep_first_def)
next
  case (Cons cur rest)
  have c: "cur < length h" and r: "valid_refs h rest"
    using Cons.prems(2) by (simp_all add: valid_refs_def)
  let ?sc = "greedy_minecount_inner cur rest sc"
  have f: "from_heap h ?sc"
    using from_heap_grows [OF Cons.prems(1) greedy_minecount_inner_grows] .
  show ?case
    using Cons.IH [OF f r] greedy_minecount_inner_deref [OF Cons.prems(1) c r]
    by (simp add: keep_first_append)
qed

lemma sorted_by_lt_reverse_mset: "mset (sorted_by_lt_reverse h rs) = mset rs"
  by (simp add: sorted_by_lt_reverse_def)

lemma sorted_by_lt_reverse_descending:
  "sorted (rev (map (\<lambda>r. sort_key_of (h ! r)) (sorted_by_lt_reverse h rs)))"
  by (simp add: sorted_by_lt_reverse_def rev_map [symmetric])

lemma valid_refs_mset: "mset rs = mset rs' \<Longrightarrow> valid_refs h rs = valid_refs h rs'"
  by (auto simp: valid_refs_def list_all_iff dest: mset_eq_setD)

lemma sorted_by_lt_reverse_stable:
  "filter (\<lambda>r. sort_key_of (h ! r) = k) (sorted_by_lt_reverse h rs)
     = filter (\<lambda>r. sort_key_of (h ! r) = k) rs"
  by (simp add: sorted_by_lt_reverse_def rev_filter [symmetric] sort_key_stable)

lemma sorted_by_lt_reverse_unique:
  assumes "mset scanned = mset rs"
    and "sorted (rev (map (\<lambda>r. sort_key_of (h ! r)) scanned))"
    and "\<forall>k. filter (\<lambda>r. sort_key_of (h ! r) = k) scanned = filter (\<lambda>r. sort_key_of (h ! r) = k) rs"
  shows "scanned = sorted_by_lt_reverse h rs"
proof -
  let ?f = "\<lambda>r. sort_key_of (h ! r)"
  have "sort_key ?f (rev rs) = rev scanned"
  proof (rule properties_for_sort_key)
    show "mset (rev scanned) = mset (rev rs)" using assms(1) by simp
    show "sorted (map ?f (rev scanned))" using assms(2) by (simp add: rev_map)
    fix k
    have "filter (\<lambda>x. ?f x = ?f k) scanned = filter (\<lambda>x. ?f x = ?f k) rs"
      using assms(3) by blast
    then have "filter (\<lambda>x. ?f k = ?f x) scanned = filter (\<lambda>x. ?f k = ?f x) rs"
      by (simp add: eq_commute)
    then show "filter (\<lambda>x. ?f k = ?f x) (rev scanned) = filter (\<lambda>x. ?f k = ?f x) (rev rs)"
      by (simp add: rev_filter [symmetric])
  qed
  then show ?thesis by (simp add: sorted_by_lt_reverse_def)
qed

text \<open>
  Claim C7, amended (scan order of the greedy search by mine count).  The search sorts the
  list with \<open>sorted(knowledge_base, reverse=True)\<close>, that is in descending order of
  the key \<open>(len(cell_positions), mine_count)\<close> of \<open>__lt__\<close>: the number of cells
  comes first and the mine count only breaks ties, and statements with equal keys keep
  the order they have in the input.  The list that is scanned is the only list with
  these three properties: it is a rearrangement of the input, its keys are descending,
  and for every key the statements with that key are in their input order.  The search
  then compares each statement with the statements after it in that order and stops
  the inner scan at the first one whose cells are not a subset; the returned statements
  are the differences of the pairs compared before that, without repetitions.
\<close>

theorem greedy_minecount_scan_order:
  assumes "valid_refs h kb"
  shows "(scanned = sorted_by_lt_reverse h kb \<longleftrightarrow>
            mset scanned = mset kb \<and>
            sorted (rev (map (\<lambda>r. sort_key_of (h ! r)) scanned)) \<and>
            (\<forall>k. filter (\<lambda>r. sort_key_of (h ! r) = k) scanned
                   = filter (\<lambda>r. sort_key_of (h ! r) = k) kb)) \<and>
    deref (result_store (greedy_algorithm_minecount_search g h kb n))
          (result_inferred (greedy_algorithm_minecount_search g h kb n))
      = keep_first (scan_candidates h (sorted_by_lt_reverse h kb)) []"
proof -
  have v: "valid_refs h (sorted_by_lt_reverse h kb)"
    using assms valid_refs_mset [OF sorted_by_lt_reverse_mset] by simp
  have order: "scanned = sorted_by_lt_reverse h kb \<longleftrightarrow>
            mset scanned = mset kb \<and>
            sorted (rev (map (\<lambda>r. sort_key_of (h ! r)) scanned)) \<and>
            (\<forall>k. filter (\<lambda>r. sort_key_of (h ! r) = k) scanned
                   = filter (\<lambda>r. sort_key_of (h ! r) = k) kb)"
    using sorted_by_lt_reverse_unique [of scanned kb h]
    by (auto simp: sorted_by_lt_reverse_mset sorted_by_lt_reverse_descending
          sorted_by_lt_reverse_stable)
  have "deref (result_store (greedy_algorithm_minecount_search g h kb n))
          (result_inferred (greedy_algorithm_minecount_search g h kb n))
      = keep_first (scan_candidates h (sorted_by_lt_reverse h kb)) []"
    using greedy_minecount_outer_deref [OF from_heap_initial v, of n]
    by (simp add: greedy_algorithm_minecount_search_def finish_search_def deref_def)
  with order show ?thesis by blast
qed

theorem greedy_minecount_scan_order_witness:
  "valid_refs nested_statements [0, 1, 2] \<and>
   sorted_by_lt_reverse nested_statements [0, 1, 2] = [1, 0, 2] \<and>
   deref (result_store (greedy_algorithm_minecount_search new_stat_generator nested_statements [0, 1, 2] 0))
         (result_inferred (greedy_algorithm_minecount_search new_stat_generator nested_statements [0, 1, 2] 0))
     = [new_statement {|(0, 2)|} 1, new_statement {|(0, 1), (0, 2)|} 1, new_statement {|(0, 1)|} 0] \<and>
   valid_refs tied_statements [0, 1, 2] \<and>
   map (\<lambda>r. sort_key_of (tied_statements ! r)) [0, 1, 2] = [(2, 1), (2, 1), (1, 0)] \<and>
   sorted_by_lt_reverse tied_statements [0, 1, 2] = [0, 1, 2] \<and>
   [1, 0, 2] \<noteq> sorted_by_lt_reverse tied_statements [0, 1, 2] \<and>
   deref (result_store (greedy_algorithm_minecount_search new_stat_generator tied_statements [0, 1, 2] 0))
         (result_inferred (greedy_algorithm_minecount_search new_stat_generator tied_statements [0, 1, 2] 0))
     = [] \<and>
   keep_first (scan_candidates tied_statements [1, 0, 2]) [] = [new_statement {|(0, 1)|} 1]"
proof -
  have v: "valid_refs nested_statements [0, 1, 2]"
    by (simp add: valid_refs_def nested_statements_def)
  have s: "sorted_by_lt_reverse nested_statements [0, 1, 2] = [1, 0, 2]"
    by code_simp
  have k: "keep_first (scan_candidates nested_statements [1, 0, 2]) []
     = [new_statement {|(0, 2)|} 1, new_statement {|(0, 1), (0, 2)|} 1, new_statement {|(0, 1)|} 0]"
    by code_simp
  have v': "valid_refs tied_statements [0, 1, 2]"
    by (simp add: valid_refs_def tied_statements_def)
  have keys: "map (\<lambda>r. sort_key_of (tied_statements ! r)) [0, 1, 2] = [(2, 1), (2, 1), (1, 0)]"
    by code_simp
  have m: "mset [0, 1, 2 :: nat] = mset [0, 1, 2]" by simp
  have d: "sorted (rev (map (\<lambda>r. sort_key_of (tied_statements ! r)) [0, 1, 2]))"
    unfolding keys by simp
  have k': "keep_first (scan_candidates tied_statements [0, 1, 2]) [] = []"
    "keep_first (scan_candidates tied_statements [1, 0, 2]) [] = [new_statement {|(0, 1)|} 1]"
    by code_simp+
  have t: "[0, 1, 2] = sorted_by_lt_reverse tied_statements [0, 1, 2]"
    using greedy_minecount_scan_order [OF v', of "[0, 1, 2]" new_stat_generator 0] m d by simp
  have r: "deref (result_store (greedy_algorithm_minecount_search new_stat_generator tied_statements [0, 1, 2] 0))
         (result_inferred (greedy_algorithm_minecount_search new_stat_generator tied_statements [0, 1, 2] 0))
     = []"
    using greedy_minecount_scan_order [OF v', of "[0, 1, 2]" new_stat_generator 0] t k'(1) by simp
  have n: "deref (result_store (greedy_algorithm_minecount_search new_stat_generator nested_statements [0, 1, 2] 0))
         (result_inferred (greedy_algorithm_minecount_search new_stat_generator nested_statements [0, 1, 2] 0))
     = [new_statement {|(0, 2)|} 1, new_statement {|(0, 1), (0, 2)|} 1, new_statement {|(0, 1)|} 0]"
    using greedy_minecount_scan_order [OF v, of "[1, 0, 2]" new_stat_generator 0] s k by simp
  have ne: "[1, 0, 2] \<noteq> sorted_by_lt_reverse tied_statements [0, 1, 2]"
    using t [symmetric] by simp
  show ?thesis
    using v s n v' keys t [symmetric] ne r k'(2) by simp
qed

text \<open>
  Claim C7 as stated fails: on three statements with 3, 2 and 1 cells and the mine counts
  1, 2 and 0 the list that is scanned has the mine counts \<open>[1, 2, 0]\<close>, which is not
  descending, and nothing is inferred; a scan in descending order of the mine count
  would infer \<open>{(0,1),(0,2)} = 1\<close>.
\<close>

theorem greedy_minecount_counterexample:
  "map (\<lambda>r. mine_count (three_statements ! r)) (sorted_by_lt_reverse three_statements [0, 1, 2])
     = [1, 2, 0] \<and>
   sorted_by_mine_count_descending three_statements [0, 1, 2] = [1, 0, 2] \<and>
   result_inferred (greedy_algorithm_minecount_search new_stat_generator three_statements [0, 1, 2] 0)
     = [] \<and>
   keep_first (scan_candidates three_statements
       (sorted_by_mine_count_descending three_statements [0, 1, 2])) []
     = [new_statement {|(0, 1), (0, 2)|} 1]"
  by code_simp

section \<open>The search algorithms and their input\<close>

subsection \<open>Brute force\<close>

lemma brute_force_from_heap:
  "from_heap h (brute_force_outer kb kb \<lparr>store = h, inferred = [], comparisons = n\<rparr>)"
  using from_heap_grows [OF from_heap_initial brute_force_outer_grows] .

subsection \<open>Divide and conquer\<close>

lemma divide_and_conquer_compare_grows:
  "grows (fst acc) (fst (divide_and_conquer_compare l r acc))"
  using append_if_new_grows [of "(fst acc)\<lparr>comparisons := comparisons (fst acc) + 1\<rparr>"]
  by (simp add: divide_and_conquer_compare_def Let_def grows_refl)

lemma divide_and_conquer_inner_grows:
  "grows (fst acc) (fst (divide_and_conquer_inner l rs acc))"
proof (induction rs arbitrary: acc)
  case Nil
  show ?case by (simp add: grows_refl)
next
  case (Cons r rs)
  show ?case
    using grows_trans [OF divide_and_conquer_compare_grows Cons [of "divide_and_conquer_compare l r acc"]]
    by simp
qed

lemma divide_and_conquer_outer_grows:
  "grows (fst acc) (fst (divide_and_conquer_outer ls rs acc))"
proof (induction ls arbitrary: acc)
  case Nil
  show ?case by (simp add: grows_refl)
next
  case (Cons l ls)
  show ?case
    using grows_trans [OF divide_and_conquer_inner_grows Cons [of "divide_and_conquer_inner l rs acc"]]
    by simp
qed

lemma merged_grows:
  assumes "merged h kb sc" "grows sc sc'"
  shows "merged h kb sc'"
proof -
  from assms(2) obtain ext more where
    e: "store sc' = store sc @ ext" "inferred sc' = inferred sc @ more"
       "list_all (\<lambda>r. length (store sc) \<le> r \<and> r < length (store sc')) more"
    unfolding grows_def by blast
  from assms(1) obtain ext0 where
    m: "store sc = h @ ext0"
       "\<forall>x \<in> set (inferred sc). x \<in> set kb \<or> (length h \<le> x \<and> x < length (store sc))"
    unfolding merged_def by blast
  have "store sc' = h @ (ext0 @ ext)" using e m by simp
  moreover have "\<forall>x \<in> set (inferred sc'). x \<in> set kb \<or> (length h \<le> x \<and> x < length (store sc'))"
    using e m by (fastforce simp: list_all_iff)
  ultimately show ?thesis unfolding merged_def by blast
qed

lemma merged_covers:
  assumes "merged h kb sc" "grows sc sc'"
  shows "set (inferred sc) \<subseteq> set (inferred sc')"
  using assms(2) by (auto simp: grows_def)

lemma divide_and_conquer_merged:
  "end < length kb \<Longrightarrow>
   merged h kb (fst (divide_and_conquer h kb start end)) \<and>
   (start \<le> end \<longrightarrow> set (take (Suc end - start) (drop start kb))
       \<subseteq> set (inferred (fst (divide_and_conquer h kb start end))))"
proof (induction h kb start "end" rule: divide_and_conquer.induct)
  case (1 h kb start "end")
  show ?case
  proof (cases "start \<ge> end")
    case True
    show ?thesis
    proof (cases "start = end")
      case True
      then have "start < length kb" using "1.prems" by simp
      then have "take (Suc 0) (drop start kb) = [kb ! start]"
        by (metis Cons_nth_drop_Suc take0 take_Suc_Cons)
      then show ?thesis
        using True \<open>start < length kb\<close>
        by (subst (1 2) divide_and_conquer.simps) (simp add: merged_def)
    next
      case False
      then have "start > end" using True by simp
      then show ?thesis
        by (subst divide_and_conquer.simps) (simp add: merged_def)
    qed
  next
    case False
    define mid where "mid = (start + end) div 2"
    define left where "left = divide_and_conquer h kb start mid"
    define right where "right = divide_and_conquer (store (fst left)) kb (mid + 1) end"
    define sc0 where "sc0 = \<lparr>store = store (fst right),
                inferred = inferred (fst left) @ inferred (fst right),
                comparisons = comparisons (fst left) + comparisons (fst right)\<rparr>"
    define res where "res = divide_and_conquer_outer (inferred (fst left)) (inferred (fst right))
              (sc0, snd left + snd right)"
    have lt: "start < end" using False by simp
    have bounds: "start \<le> mid" "mid < end" "mid + 1 \<le> end" "mid < length kb"
      using lt "1.prems" by (auto simp: mid_def)
    have eq: "divide_and_conquer h kb start end = res"
      using lt
      by (subst divide_and_conquer.simps)
         (simp add: Let_def res_def sc0_def left_def right_def mid_def)
    have L: "merged h kb (fst left)"
      and Lc: "set (take (Suc mid - start) (drop start kb)) \<subseteq> set (inferred (fst left))"
      using "1.IH"(1) [OF _ _ mid_def] lt bounds unfolding left_def by auto
    have R: "merged (store (fst left)) kb (fst right)"
      and Rc: "set (take (Suc end - (mid + 1)) (drop (mid + 1) kb)) \<subseteq> set (inferred (fst right))"
      using "1.IH"(2) [OF _ _ mid_def left_def] lt bounds "1.prems"
      unfolding right_def by auto
    from L obtain e1 where l1: "store (fst left) = h @ e1"
      and l2: "\<forall>x \<in> set (inferred (fst left)). x \<in> set kb \<or> (length h \<le> x \<and> x < length (store (fst left)))"
      unfolding merged_def by blast
    from R obtain e2 where r1: "store (fst right) = store (fst left) @ e2"
      and r2: "\<forall>x \<in> set (inferred (fst right)). x \<in> set kb \<or>
                 (length (store (fst left)) \<le> x \<and> x < length (store (fst right)))"
      unfolding merged_def by blast
    have "store sc0 = h @ (e1 @ e2)" using l1 r1 by (simp add: sc0_def)
    moreover have "\<forall>x \<in> set (inferred sc0). x \<in> set kb \<or> (length h \<le> x \<and> x < length (store sc0))"
      using l1 l2 r1 r2 by (fastforce simp: sc0_def)
    ultimately have M0: "merged h kb sc0" unfolding merged_def by blast
    have g: "grows sc0 (fst res)"
      using divide_and_conquer_outer_grows [of "(sc0, snd left + snd right)"] by (simp add: res_def)
    have M: "merged h kb (fst res)" using merged_grows [OF M0 g] .
    have "take (Suc end - start) (drop start kb)
        = take (Suc mid - start) (drop start kb) @ take (Suc end - (mid + 1)) (drop (mid + 1) kb)"
    proof -
      have a: "Suc end - start = (Suc mid - start) + (end - mid)"
        using bounds by simp
      have b: "drop (Suc mid - start) (drop start kb) = drop (Suc mid) kb"
        using bounds by simp
      have "take ((Suc mid - start) + (end - mid)) (drop start kb)
          = take (Suc mid - start) (drop start kb)
            @ take (end - mid) (drop (Suc mid - start) (drop start kb))"
        by (rule take_add)
      then show ?thesis unfolding a b by simp
    qed
    then have "set (take (Suc end - start) (drop start kb)) \<subseteq> set (inferred sc0)"
      using Lc Rc by (auto simp: sc0_def)
    then have "set (take (Suc end - start) (drop start kb)) \<subseteq> set (inferred (fst res))"
      using merged_covers [OF M0 g] by blast
    then show ?thesis using M unfolding eq by simp
  qed
qed

subsection \<open>Dynamic programming\<close>

lemma dynamic_programming_compare_grows:
  "grows (fst acc) (fst (dynamic_programming_compare a b acc))"
  using append_if_new_grows [of "(fst acc)\<lparr>comparisons := comparisons (fst acc) + 1\<rparr>"]
  by (simp add: dynamic_programming_compare_def Let_def grows_refl)

lemma dynamic_programming_inner_grows:
  "grows (fst acc) (fst (dynamic_programming_inner a bs acc))"
proof (induction bs arbitrary: acc)
  case Nil
  show ?case by (simp add: grows_refl)
next
  case (Cons b bs)
  show ?case
    using grows_trans [OF dynamic_programming_compare_grows
        Cons [of "dynamic_programming_compare a b acc"]]
    by simp
qed

lemma dynamic_programming_outer_grows:
  "grows (fst acc) (fst (dynamic_programming_outer as acc))"
proof (induction as arbitrary: acc)
  case Nil
  show ?case by (simp add: grows_refl)
next
  case (Cons a as)
  show ?case
    using grows_trans [OF dynamic_programming_inner_grows
        Cons [of "dynamic_programming_inner a as acc"]]
    by simp
qed

subsection \<open>Greedy by size\<close>

text \<open>
  The list is sorted in ascending order of the number of cells, so the first statement
  after the current one never has fewer cells: the inner loop stops at its first
  comparison, nothing is inferred and the list that was passed is never appended to.
\<close>

lemma greedy_size_inner_stops:
  assumes "rest = [] \<or> cell_count (store (gs_scan st)) cur \<le> cell_count (store (gs_scan st)) (hd rest)"
  shows "\<exists>n. greedy_size_inner cur rest st = st\<lparr>gs_scan := (gs_scan st)\<lparr>comparisons := n\<rparr>\<rparr>"
proof (cases rest)
  case Nil
  have "st = st\<lparr>gs_scan := (gs_scan st)\<lparr>comparisons := comparisons (gs_scan st)\<rparr>\<rparr>" by simp
  then show ?thesis using Nil by (metis greedy_size_inner.simps(1))
next
  case (Cons nxt rest')
  then show ?thesis using assms by (auto simp: Let_def)
qed

lemma greedy_size_outer_idle:
  assumes "sorted (map (cell_count h) srt)" "sorted_by_size h kb = srt"
    and "i \<le> length srt"
    and "store (gs_scan st) = h" "inferred (gs_scan st) = []"
    and "gs_knowledge_base st = kb" "gs_sorted_knowledge_base st = srt"
  shows "\<exists>n. greedy_size_outer (enumerate i (drop i srt)) st
            = st\<lparr>gs_scan := (gs_scan st)\<lparr>comparisons := n\<rparr>\<rparr>"
  using assms(3-)
proof (induction "length srt - i" arbitrary: i st)
  case 0
  then have "drop i srt = []" by simp
  moreover have "st = st\<lparr>gs_scan := (gs_scan st)\<lparr>comparisons := comparisons (gs_scan st)\<rparr>\<rparr>" by simp
  ultimately show ?case by (metis enumerate_simps(1) greedy_size_outer.simps(1))
next
  case (Suc k)
  then have i: "i < length srt" by simp
  then have d: "drop i srt = srt ! i # drop (Suc i) srt"
    by (simp add: Cons_nth_drop_Suc)
  have stop: "drop (Suc i) srt = [] \<or>
      cell_count (store (gs_scan st)) (srt ! i) \<le> cell_count (store (gs_scan st)) (hd (drop (Suc i) srt))"
  proof (cases "Suc i < length srt")
    case True
    then have "hd (drop (Suc i) srt) = srt ! Suc i" by (simp add: hd_drop_conv_nth)
    moreover have "map (cell_count h) srt ! i \<le> map (cell_count h) srt ! Suc i"
      using assms(1) True by (intro sorted_nth_mono) simp_all
    ultimately show ?thesis using True Suc.prems by simp
  next
    case False
    then show ?thesis by simp
  qed
  from greedy_size_inner_stops [OF stop] obtain n where
    inner: "greedy_size_inner (srt ! i) (drop (Suc i) srt) st
              = st\<lparr>gs_scan := (gs_scan st)\<lparr>comparisons := n\<rparr>\<rparr>" by blast
  let ?st = "st\<lparr>gs_scan := (gs_scan st)\<lparr>comparisons := n\<rparr>\<rparr>"
  have resort: "?st\<lparr>gs_sorted_knowledge_base := sorted_by_size (store (gs_scan ?st)) (gs_knowledge_base ?st)\<rparr> = ?st"
    using Suc.prems assms(2) by simp
  have step: "greedy_size_outer (enumerate i (drop i srt)) st
            = greedy_size_outer (enumerate (Suc i) (drop (Suc i) srt)) ?st"
    using inner resort Suc.prems by (simp add: d Let_def)
  have "\<exists>m. greedy_size_outer (enumerate (Suc i) (drop (Suc i) srt)) ?st
            = ?st\<lparr>gs_scan := (gs_scan ?st)\<lparr>comparisons := m\<rparr>\<rparr>"
    using Suc.hyps(2) i Suc.prems by (intro Suc.hyps(1)) simp_all
  then show ?case unfolding step by auto
qed

lemma greedy_algorithm_size_search_idle:
  "result_store (greedy_algorithm_size_search g h kb n) = h \<and>
   result_knowledge_base (greedy_algorithm_size_search g h kb n) = kb \<and>
   result_inferred (greedy_algorithm_size_search g h kb n) = []"
proof -
  let ?st = "\<lparr>gs_scan = \<lparr>store = h, inferred = [], comparisons = n\<rparr>,
              gs_knowledge_base = kb, gs_sorted_knowledge_base = sorted_by_size h kb\<rparr>"
  have "sorted (map (cell_count h) (sorted_by_size h kb))"
    by (simp add: sorted_by_size_def)
  from greedy_size_outer_idle [OF this refl, of 0 ?st]
  obtain m where "greedy_size_outer (enumerate 0 (sorted_by_size h kb)) ?st
      = ?st\<lparr>gs_scan := (gs_scan ?st)\<lparr>comparisons := m\<rparr>\<rparr>"
    by auto
  then show ?thesis
    by (simp add: greedy_algorithm_size_search_def Let_def finish_search_def)
qed


subsection \<open>Breadth first and depth first search\<close>

lemma bfs_compare_grows: "grows (ts_scan st) (ts_scan (bfs_compare kb a b st))"
  using append_if_new_grows [of "(ts_scan st)\<lparr>comparisons := comparisons (ts_scan st) + 1\<rparr>"]
  by (simp add: bfs_compare_def Let_def grows_refl)

lemma bfs_inner_grows: "grows (ts_scan st) (ts_scan (bfs_inner kb a bs st))"
proof (induction bs arbitrary: st)
  case Nil
  show ?case by (simp add: grows_refl)
next
  case (Cons b bs)
  show ?case
    using grows_trans [OF bfs_compare_grows Cons [of "bfs_compare kb a b st"]] by simp
qed

lemma bfs_pairs_grows: "grows (ts_scan st) (ts_scan (bfs_pairs kb as st))"
proof (induction as arbitrary: st)
  case Nil
  show ?case by (simp add: grows_refl)
next
  case (Cons a as)
  show ?case
    using grows_trans [OF bfs_inner_grows Cons [of "bfs_inner kb a as st"]] by simp
qed

lemma bfs_loop_grows:
  assumes "bfs_loop st = Some st'"
  shows "grows (ts_scan st) (ts_scan st')"
proof (rule bfs_loop.raw_induct [where P = "\<lambda>st st'. grows (ts_scan st) (ts_scan st')", OF _ assms],
    goal_cases)
  case (1 loop st st')
  show ?case
  proof (cases "ts_frontier st")
    case Nil
    then show ?thesis using 1(2) by (simp add: grows_refl)
  next
    case (Cons current_kb queue)
    let ?key = "kb_key_of (store (ts_scan st)) current_kb"
    show ?thesis
    proof (cases "?key \<in> ts_visited st")
      case True
      then have "loop (st\<lparr>ts_frontier := queue\<rparr>) = Some st'"
        using 1(2) Cons by (simp add: Let_def)
      from 1(1) [OF this] show ?thesis by simp
    next
      case False
      let ?st = "bfs_pairs current_kb current_kb
                   (st\<lparr>ts_frontier := queue, ts_visited := insert ?key (ts_visited st)\<rparr>)"
      have "loop ?st = Some st'" using 1(2) Cons False by (simp add: Let_def)
      from 1(1) [OF this] have "grows (ts_scan ?st) (ts_scan st')" .
      moreover have "grows (ts_scan st) (ts_scan ?st)"
        using bfs_pairs_grows [of "st\<lparr>ts_frontier := queue, ts_visited := insert ?key (ts_visited st)\<rparr>"]
        by simp
      ultimately show ?thesis by (rule grows_trans [rotated])
    qed
  qed
qed

lemma dfs_compare_grows: "grows (ts_scan st) (ts_scan (dfs_compare kb a b st))"
  using append_if_new_grows [of "(ts_scan st)\<lparr>comparisons := comparisons (ts_scan st) + 1\<rparr>"]
  by (simp add: dfs_compare_def Let_def grows_refl)

lemma dfs_inner_grows: "grows (ts_scan st) (ts_scan (dfs_inner kb a bs st))"
proof (induction bs arbitrary: st)
  case Nil
  show ?case by (simp add: grows_refl)
next
  case (Cons b bs)
  show ?case
    using grows_trans [OF dfs_compare_grows Cons [of "dfs_compare kb a b st"]] by simp
qed

lemma dfs_pairs_grows: "grows (ts_scan st) (ts_scan (dfs_pairs kb as st))"
proof (induction as arbitrary: st)
  case Nil
  show ?case by (simp add: grows_refl)
next
  case (Cons a as)
  show ?case
    using grows_trans [OF dfs_inner_grows Cons [of "dfs_inner kb a as st"]] by simp
qed

lemma dfs_loop_grows:
  assumes "dfs_loop st = Some st'"
  shows "grows (ts_scan st) (ts_scan st')"
proof (rule dfs_loop.raw_induct [where P = "\<lambda>st st'. grows (ts_scan st) (ts_scan st')", OF _ assms],
    goal_cases)
  case (1 loop st st')
  show ?case
  proof (cases "ts_frontier st = []")
    case True
    then show ?thesis using 1(2) by (simp add: grows_refl)
  next
    case nonempty: False
    let ?kb = "last (ts_frontier st)"
    let ?key = "kb_key_of (store (ts_scan st)) ?kb"
    show ?thesis
    proof (cases "?key \<in> ts_visited st")
      case True
      then have "loop (st\<lparr>ts_frontier := butlast (ts_frontier st)\<rparr>) = Some st'"
        using 1(2) nonempty by (simp add: Let_def)
      from 1(1) [OF this] show ?thesis by simp
    next
      case False
      let ?st = "dfs_pairs ?kb ?kb
                   (st\<lparr>ts_frontier := butlast (ts_frontier st),
                       ts_visited := insert ?key (ts_visited st)\<rparr>)"
      have "loop ?st = Some st'" using 1(2) nonempty False by (simp add: Let_def)
      from 1(1) [OF this] have "grows (ts_scan ?st) (ts_scan st')" .
      moreover have "grows (ts_scan st) (ts_scan ?st)"
        using dfs_pairs_grows [of "st\<lparr>ts_frontier := butlast (ts_frontier st),
                       ts_visited := insert ?key (ts_visited st)\<rparr>"]
        by simp
      ultimately show ?thesis by (rule grows_trans [rotated])
    qed
  qed
qed

subsection \<open>All seven\<close>

lemma finish_search_from_heap:
  "from_heap h sc \<Longrightarrow>
   result_knowledge_base (finish_search kb g sc) = kb \<and>
   take (length h) (result_store (finish_search kb g sc)) = h \<and>
   (\<forall>x \<in> set (result_inferred (finish_search kb g sc)).
       length h \<le> x \<and> x < length (result_store (finish_search kb g sc)))"
  using from_heap_valid [of h sc]
  by (auto simp: finish_search_def from_heap_take valid_refs_def list_all_iff dest: from_heap_fresh)

text \<open>What a search algorithm leaves of its input, and where its results live.\<close>

lemma run_algorithm_frame:
  assumes "run_algorithm alg g h kb n = Some r"
  shows "result_knowledge_base r = kb \<and>
    take (length h) (result_store r) = h \<and>
    (\<forall>x \<in> set (result_inferred r).
        (alg = Divide_and_conquer \<and> x \<in> set kb) \<or> (length h \<le> x \<and> x < length (result_store r))) \<and>
    (alg = Divide_and_conquer \<longrightarrow> set kb \<subseteq> set (result_inferred r))"
proof (cases alg)
  case Brute_force
  let ?sc = "brute_force_outer kb kb \<lparr>store = h, inferred = [], comparisons = n\<rparr>"
  have "from_heap h ?sc" by (rule brute_force_from_heap)
  moreover have "r = finish_search kb g ?sc"
    using assms Brute_force by (simp add: brute_force_search_def)
  ultimately show ?thesis
    using finish_search_from_heap [of h ?sc kb g] Brute_force by simp
next
  case Divide_and_conquer
  show ?thesis
  proof (cases "kb = []")
    case True
    then show ?thesis using assms Divide_and_conquer
      by (auto simp: divide_and_conquer_search_def)
  next
    case False
    let ?sc = "fst (divide_and_conquer h kb 0 (length kb - 1))"
    have r: "result_knowledge_base r = kb" "result_store r = store ?sc" "result_inferred r = inferred ?sc"
      using assms Divide_and_conquer False by (auto simp: divide_and_conquer_search_def Let_def)
    have "length kb - 1 < length kb" using False by simp
    from divide_and_conquer_merged [OF this, of h 0]
    have m: "merged h kb ?sc" and c: "set kb \<subseteq> set (inferred ?sc)"
      using False by (simp_all add: Suc_diff_Suc)
    from m have "take (length h) (store ?sc) = h"
      and "\<forall>x \<in> set (inferred ?sc). x \<in> set kb \<or> (length h \<le> x \<and> x < length (store ?sc))"
      by (auto simp: merged_def)
    then show ?thesis using r c Divide_and_conquer by auto
  qed
next
  case Dynamic_programming
  let ?sc = "fst (dynamic_programming_outer (sorted_by_lt h kb)
          (\<lparr>store = h, inferred = [], comparisons = n\<rparr>, {}))"
  have "grows \<lparr>store = h, inferred = [], comparisons = n\<rparr> ?sc"
    using dynamic_programming_outer_grows
        [of "(\<lparr>store = h, inferred = [], comparisons = n\<rparr>, {})"] by simp
  then have "from_heap h ?sc"
    using from_heap_grows [OF from_heap_initial] by blast
  moreover have "r = finish_search kb g ?sc"
    using assms Dynamic_programming by (simp add: dynamic_programming_search_def)
  ultimately show ?thesis
    using finish_search_from_heap [of h ?sc kb g] Dynamic_programming by simp
next
  case Greedy_algorithm_size
  then have "r = greedy_algorithm_size_search g h kb n" using assms by simp
  then show ?thesis
    using greedy_algorithm_size_search_idle [of g h kb n] Greedy_algorithm_size by simp
next
  case Greedy_algorithm_minecount
  let ?sc = "greedy_minecount_outer (sorted_by_lt_reverse h kb)
          \<lparr>store = h, inferred = [], comparisons = n\<rparr>"
  have "from_heap h ?sc"
    using from_heap_grows [OF from_heap_initial greedy_minecount_outer_grows] .
  moreover have "r = finish_search kb g ?sc"
    using assms Greedy_algorithm_minecount by (simp add: greedy_algorithm_minecount_search_def)
  ultimately show ?thesis
    using finish_search_from_heap [of h ?sc kb g] Greedy_algorithm_minecount by simp
next
  case Bfs
  then obtain st where st: "bfs_loop \<lparr>ts_scan = \<lparr>store = h, inferred = [], comparisons = n\<rparr>,
                  ts_frontier = [sorted_by_size h kb], ts_visited = {}\<rparr> = Some st"
    and r: "r = finish_search kb g (ts_scan st)"
    using assms by (auto simp: bfs_search_def)
  have "grows \<lparr>store = h, inferred = [], comparisons = n\<rparr> (ts_scan st)"
    using bfs_loop_grows [OF st] by simp
  then have "from_heap h (ts_scan st)"
    using from_heap_grows [OF from_heap_initial] by blast
  then show ?thesis
    using finish_search_from_heap [of h "ts_scan st" kb g] r Bfs by simp
next
  case Dfs
  then obtain st where st: "dfs_loop \<lparr>ts_scan = \<lparr>store = h, inferred = [], comparisons = n\<rparr>,
                  ts_frontier = [sorted_by_negated_size h kb], ts_visited = {}\<rparr> = Some st"
    and r: "r = finish_search kb g (ts_scan st)"
    using assms by (auto simp: dfs_search_def)
  have "grows \<lparr>store = h, inferred = [], comparisons = n\<rparr> (ts_scan st)"
    using dfs_loop_grows [OF st] by simp
  then have "from_heap h (ts_scan st)"
    using from_heap_grows [OF from_heap_initial] by blast
  then show ?thesis
    using finish_search_from_heap [of h "ts_scan st" kb g] r Dfs by simp
qed


text \<open>
  Claim C2, amended (the search algorithms do not touch their input).  Whenever one of
  the seven algorithms returns, the list it was passed is as it was, every object that
  existed before the call is unchanged (the store has only been extended), and every
  statement of the returned list is an object created during the call; the one exception
  is divide and conquer, whose returned list starts from the input statements themselves
  and so holds every statement of a non-empty input next to the new ones.
\<close>

theorem search_algorithms_pure:
  assumes "run_algorithm alg g h kb n = Some r"
  shows "result_knowledge_base r = kb \<and>
    take (length h) (result_store r) = h \<and>
    (\<forall>x \<in> set (result_inferred r).
        (alg = Divide_and_conquer \<and> x \<in> set kb) \<or> (length h \<le> x \<and> x < length (result_store r))) \<and>
    (alg = Divide_and_conquer \<longrightarrow> set kb \<subseteq> set (result_inferred r))"
  using assms by (rule run_algorithm_frame)

theorem search_algorithms_pure_witness:
  "\<exists>r. run_algorithm Bfs new_stat_generator nested_statements [0, 1, 2] 0 = Some r \<and>
       result_knowledge_base r = [0, 1, 2] \<and>
       take 3 (result_store r) = nested_statements \<and>
       result_inferred r = [3, 4, 5]"
proof -
  have "run_algorithm Bfs new_stat_generator nested_statements [0, 1, 2] 0 \<noteq> None"
    by code_simp
  then obtain r where r: "run_algorithm Bfs new_stat_generator nested_statements [0, 1, 2] 0 = Some r"
    by blast
  have i: "map_option result_inferred (run_algorithm Bfs new_stat_generator nested_statements [0, 1, 2] 0)
      = Some [3, 4, 5]"
    by code_simp
  have "length nested_statements = 3" by (simp add: nested_statements_def)
  then show ?thesis
    using search_algorithms_pure [OF r] r i by simp
qed

text \<open>
  Claim C2 as stated fails for divide and conquer: called with a single statement it
  returns that very object.
\<close>

theorem divide_and_conquer_counterexample:
  "run_algorithm Divide_and_conquer new_stat_generator [new_statement {|(0, 0), (0, 1)|} 1] [0] 0
     = Some \<lparr>result_store = [new_statement {|(0, 0), (0, 1)|} 1], result_knowledge_base = [0],
             result_inferred = [0],
             result_stats = update_inferences 0 (update_subset_comparisons 0 new_stat_generator)\<rparr>"
  by (simp add: divide_and_conquer_search_def divide_and_conquer.simps)

section \<open>The propagation loop\<close>

text \<open>What a pass that returns is made of.\<close>

lemma propagation_pass_SomeD:
  assumes "propagation_pass ai inferred_set = Some res"
  shows "\<exists>r. run_algorithm (search_algorithm_method (fst (mark_known_cells ai)))
               (stat_generator (fst (mark_known_cells ai))) (objects (fst (mark_known_cells ai)))
               (knowledge_base (fst (mark_known_cells ai))) 0 = Some r \<and>
             res = merge_inferences (fst (mark_known_cells ai)) inferred_set
                     (snd (mark_known_cells ai)) r"
  using assms by (cases "mark_known_cells ai") (auto simp: propagation_pass_def)

text \<open>
  An invariant of the passes holds when the loop ends, and the loop ends with a pass
  that reports no change.
\<close>

lemma propagation_loop_invariant:
  assumes "propagation_loop ai inferred_set n = Some res"
    and "I ai inferred_set"
    and step: "\<And>ai inferred_set ai' inferred_set' changed.
           I ai inferred_set \<Longrightarrow> propagation_pass ai inferred_set = Some (ai', inferred_set', changed)
           \<Longrightarrow> I ai' inferred_set'"
  shows "\<exists>ai0 inferred_set0. I ai0 inferred_set0 \<and>
           propagation_pass ai0 inferred_set0 = Some (fst res, fst (snd res), False)"
proof -
  have "I ai inferred_set \<longrightarrow> (\<exists>ai0 inferred_set0. I ai0 inferred_set0 \<and>
           propagation_pass ai0 inferred_set0 = Some (fst res, fst (snd res), False))"
  proof (rule propagation_loop.raw_induct
      [where P = "\<lambda>ai inferred_set n res. I ai inferred_set \<longrightarrow>
          (\<exists>ai0 inferred_set0. I ai0 inferred_set0 \<and>
             propagation_pass ai0 inferred_set0 = Some (fst res, fst (snd res), False))",
        OF _ assms(1)], goal_cases)
    case (1 loop ai inferred_set n res)
    show ?case
    proof
      assume inv: "I ai inferred_set"
      from 1(2) obtain ai' inferred_set' changed where
        pass: "propagation_pass ai inferred_set = Some (ai', inferred_set', changed)"
        by (cases "propagation_pass ai inferred_set") auto
      have inv': "I ai' inferred_set'" using step [OF inv pass] .
      show "\<exists>ai0 inferred_set0. I ai0 inferred_set0 \<and>
             propagation_pass ai0 inferred_set0 = Some (fst res, fst (snd res), False)"
      proof (cases changed)
        case True
        then have "loop ai' inferred_set' (n + 1) = Some res" using 1(2) pass by simp
        from 1(1) [OF this] inv' show ?thesis by blast
      next
        case False
        then have "res = (ai', inferred_set', n + 1)" using 1(2) pass by simp
        then show ?thesis using inv pass False by auto
      qed
    qed
  qed
  then show ?thesis using assms(2) by blast
qed

lemma propagation_loop_preserves:
  assumes "propagation_loop ai inferred_set n = Some res"
    and "I ai inferred_set"
    and step: "\<And>ai inferred_set ai' inferred_set' changed.
           I ai inferred_set \<Longrightarrow> propagation_pass ai inferred_set = Some (ai', inferred_set', changed)
           \<Longrightarrow> I ai' inferred_set'"
  shows "I (fst res) (fst (snd res))"
proof -
  have "\<exists>ai0 inferred_set0. I ai0 inferred_set0 \<and>
           propagation_pass ai0 inferred_set0 = Some (fst res, fst (snd res), False)"
    by (rule propagation_loop_invariant [where I = I, OF assms(1) assms(2)]) (rule step)
  then show ?thesis using step by blast
qed

section \<open>The queue of safe cells\<close>

lemma mark_cell_as_safe_queue: "queue_invariant ai \<Longrightarrow> queue_invariant (mark_cell_as_safe c ai)"
  by (auto simp: queue_invariant_def mark_cell_as_safe_def Let_def)

lemma mark_cell_as_mine_queue: "queue_invariant ai \<Longrightarrow> queue_invariant (mark_cell_as_mine c ai)"
  by (simp add: queue_invariant_def mark_cell_as_mine_def)

lemma fold_mark_cell_as_safe_queue:
  "queue_invariant ai \<Longrightarrow> queue_invariant (fold mark_cell_as_safe cs ai)"
  by (induction cs arbitrary: ai) (simp_all add: mark_cell_as_safe_queue)

lemma fold_mark_cell_as_mine_queue:
  "queue_invariant ai \<Longrightarrow> queue_invariant (fold mark_cell_as_mine cs ai)"
  by (induction cs arbitrary: ai) (simp_all add: mark_cell_as_mine_queue)

lemma remove_empty_and_duplicate_statements_queue:
  "queue_invariant (remove_empty_and_duplicate_statements ai) = queue_invariant ai"
  by (simp add: queue_invariant_def remove_empty_and_duplicate_statements_def Let_def)

lemma mark_known_cells_queue:
  "queue_invariant ai \<Longrightarrow> queue_invariant (fst (mark_known_cells ai))"
  unfolding mark_known_cells_def Let_def fst_conv remove_empty_and_duplicate_statements_queue
  by (intro fold_mark_cell_as_mine_queue fold_mark_cell_as_safe_queue)

lemma merge_inferences_queue:
  "queue_invariant (fst (merge_inferences ai inferred_set marked r)) = queue_invariant ai"
  by (simp add: merge_inferences_def Let_def queue_invariant_def)

lemma propagation_pass_queue:
  assumes "queue_invariant ai" "propagation_pass ai inferred_set = Some (ai', inferred_set', changed)"
  shows "queue_invariant ai'"
proof -
  from propagation_pass_SomeD [OF assms(2)] obtain r where
    "(ai', inferred_set', changed) =
       merge_inferences (fst (mark_known_cells ai)) inferred_set (snd (mark_known_cells ai)) r"
    by blast
  then have "ai' = fst (merge_inferences (fst (mark_known_cells ai)) inferred_set
                          (snd (mark_known_cells ai)) r)"
    by (metis fst_conv)
  then show ?thesis
    using mark_known_cells_queue [OF assms(1)] by (simp add: merge_inferences_queue)
qed

lemma add_statement_queue: "queue_invariant ai \<Longrightarrow> queue_invariant (add_statement c n ai)"
proof -
  assume q: "queue_invariant ai"
  let ?ai1 = "ai\<lparr>stat_generator := reset_current_stats (stat_generator ai),
                   moves_made := finsert c (moves_made ai)\<rparr>"
  have "queue_invariant ?ai1" using q by (simp add: queue_invariant_def)
  then have "queue_invariant (mark_cell_as_safe c ?ai1)" by (rule mark_cell_as_safe_queue)
  then show ?thesis
    by (simp add: add_statement_def Let_def queue_invariant_def split: prod.splits)
qed

lemma add_knowledge_queue:
  assumes "queue_invariant ai" "add_knowledge c n ai = Some ai'"
  shows "queue_invariant ai'"
proof -
  let ?ai1 = "add_statement c n ai"
  let ?set = "python_set_update (objects ?ai1) (knowledge_base ?ai1) []"
  from assms(2) obtain res where
    loop: "propagation_loop ?ai1 ?set 0 = Some res"
    and ai': "ai' = (fst res)\<lparr>stat_generator := update_iterations (snd (snd res)) (stat_generator (fst res))\<rparr>"
    by (auto simp: add_knowledge_def Let_def split: prod.splits)
  have "queue_invariant (fst res)"
    by (rule propagation_loop_preserves [where I = "\<lambda>ai s. queue_invariant ai", OF loop])
       (auto intro: add_statement_queue assms(1) propagation_pass_queue)
  then show ?thesis by (simp add: ai' queue_invariant_def)
qed

lemma run_strategy_queue:
  assumes "distinct q" "run_strategy strategy drawn q = (selected, q')"
  shows "set q' \<subseteq> set q \<and> distinct q'"
proof (cases strategy)
  case Select_fifo
  then show ?thesis using assms by (auto simp: select_fifo_def split: list.splits)
next
  case Select_lifo
  then show ?thesis using assms
    by (auto simp: select_lifo_def distinct_butlast split: if_splits dest: in_set_butlastD)
next
  case Select_sorted
  then show ?thesis using assms
    by (auto simp: select_sorted_def Let_def split: if_splits dest: notin_set_remove1)
next
  case Select_random
  then show ?thesis using assms
    by (auto simp: select_random_def Let_def split: if_splits dest: notin_set_remove1)
qed

lemma make_safe_move_queue:
  assumes "queue_invariant ai"
  shows "queue_invariant (snd (make_safe_move drawn ai))"
proof (cases "safe_cell_queue ai = []")
  case True
  then show ?thesis using assms by (simp add: make_safe_move_def)
next
  case False
  obtain selected q' where
    r: "run_strategy (safe_cell_selection_strategy ai) drawn (safe_cell_queue ai) = (selected, q')"
    by (cases "run_strategy (safe_cell_selection_strategy ai) drawn (safe_cell_queue ai)")
  from run_strategy_queue [OF _ r] assms have "set q' \<subseteq> set (safe_cell_queue ai) \<and> distinct q'"
    by (simp add: queue_invariant_def)
  then show ?thesis using assms False r by (auto simp: make_safe_move_def queue_invariant_def)
qed

text \<open>
  Claim C3, amended (safe cell queue).  In every reachable solver state the queue holds
  only cells that are identified as safe, and no cell twice.  It is not true that it
  holds no played cell: \<open>add_knowledge\<close> enters the cell it is called with into the
  queue whenever the cell was not known to be safe before.
\<close>

theorem safe_cell_queue_invariant:
  assumes "reachable ai"
  shows "set (safe_cell_queue ai) \<subseteq> fset (identified_safe_cells ai) \<and> distinct (safe_cell_queue ai)"
proof -
  have "queue_invariant ai"
    using assms
  proof (induction rule: reachable.induct)
    case (constructed a_grid_size search_algorithm_name safe_cell_strategy)
    show ?case by (simp add: new_ai_def queue_invariant_def split: prod.splits)
  next
    case (ingested ai c surrounding_mines_count ai')
    then show ?case using add_knowledge_queue by blast
  next
    case (moved ai drawn)
    then show ?case using make_safe_move_queue by blast
  qed
  then show ?thesis by (simp add: queue_invariant_def)
qed

theorem safe_cell_queue_invariant_witness:
  "\<exists>ai. reachable ai \<and> safe_cell_queue ai = [(0, 1), (1, 0), (1, 1)] \<and>
        set (safe_cell_queue ai) \<subseteq> fset (identified_safe_cells ai) \<and>
        distinct (safe_cell_queue ai)"
proof -
  let ?ai0 = "fst (new_ai 3 ''brute_force'' ''First In, First Out'')"
  have "map_option safe_cell_queue (add_knowledge (0, 0) 0 ?ai0) = Some [(0, 0), (0, 1), (1, 0), (1, 1)]"
    by code_simp
  then obtain ai1 where 1: "add_knowledge (0, 0) 0 ?ai0 = Some ai1"
    and q: "safe_cell_queue ai1 = [(0, 0), (0, 1), (1, 0), (1, 1)]"
    by auto
  have s: "safe_cell_selection_strategy ai1 = Select_fifo"
  proof -
    have "map_option safe_cell_selection_strategy (add_knowledge (0, 0) 0 ?ai0) = Some Select_fifo"
      by code_simp
    then show ?thesis using 1 by simp
  qed
  let ?ai2 = "snd (make_safe_move 0 ai1)"
  have r: "reachable ?ai2"
    by (intro reachable.moved reachable.ingested [OF _ 1] reachable.constructed)
  have "safe_cell_queue ?ai2 = [(0, 1), (1, 0), (1, 1)]"
    using q s by (simp add: make_safe_move_def select_fifo_def)
  then show ?thesis using r safe_cell_queue_invariant [OF r] by blast
qed

text \<open>
  Claim C3 as stated fails after the first ingestion: the cell that was played is in the
  queue of safe cells.
\<close>

theorem safe_cell_queue_counterexample:
  "\<exists>ai. reachable ai \<and> (0, 0) \<in> set (safe_cell_queue ai) \<and> (0, 0) |\<in>| moves_made ai"
proof -
  let ?ai0 = "fst (new_ai 3 ''brute_force'' ''First In, First Out'')"
  have "map_option (\<lambda>ai. (safe_cell_queue ai, moves_made ai)) (add_knowledge (0, 0) 1 ?ai0)
      = Some ([(0, 0)], {|(0, 0)|})"
    by code_simp
  then obtain ai1 where 1: "add_knowledge (0, 0) 1 ?ai0 = Some ai1"
    and "safe_cell_queue ai1 = [(0, 0)]" "moves_made ai1 = {|(0, 0)|}"
    by auto
  moreover have "reachable ai1"
    by (rule reachable.ingested [OF reachable.constructed 1])
  ultimately show ?thesis by auto
qed

section \<open>What the search algorithms infer\<close>

text \<open>
  Every statement a search algorithm returns is built from the statements it was given
  by taking differences of subset pairs.  So a property that all statements of the
  input have, and that differences preserve, holds of all returned statements.
\<close>

lemma all_inferred_comparisons [simp]:
  "all_inferred Q (sc\<lparr>comparisons := n\<rparr>) = all_inferred Q sc"
  by (simp add: all_inferred_def)

lemma all_inferred_append_if_new:
  "all_inferred Q sc \<Longrightarrow> Q v \<Longrightarrow> all_inferred Q (append_if_new v sc)"
  by (auto simp: all_inferred_def append_if_new_def nth_append)

lemma all_inferred_difference:
  assumes "closed_under_difference Q" "all_inferred Q sc" "Q a" "Q b"
    and "cell_positions a |\<subseteq>| cell_positions b"
  shows "all_inferred Q (append_if_new (difference_statement a b) sc)"
  using assms by (intro all_inferred_append_if_new) (auto simp: closed_under_difference_def)

subsection \<open>Brute force\<close>

lemma brute_force_compare_all:
  assumes "closed_under_difference Q" "all_inferred Q sc" "Q (store sc ! a)" "Q (store sc ! b)"
  shows "all_inferred Q (brute_force_compare a b sc)"
  using all_inferred_difference [OF assms(1), of "sc\<lparr>comparisons := comparisons sc + 1\<rparr>"
      "store sc ! a" "store sc ! b"] assms
  by (simp add: brute_force_compare_def Let_def)

lemma brute_force_inner_all:
  assumes "closed_under_difference Q" "from_heap h sc" "all_inferred Q sc"
    and "a < length h" "Q (h ! a)" "\<forall>b \<in> set bs. b < length h \<and> Q (h ! b)"
  shows "all_inferred Q (brute_force_inner a bs sc)"
  using assms(2,3,6)
proof (induction bs arbitrary: sc)
  case Nil
  then show ?case by simp
next
  case (Cons b bs)
  let ?sc = "brute_force_compare a b sc"
  have "Q (store sc ! a)" "Q (store sc ! b)"
    using from_heap_nth [OF Cons.prems(1)] assms(4,5) Cons.prems(3) by simp_all
  then have "all_inferred Q ?sc"
    using brute_force_compare_all [OF assms(1) Cons.prems(2)] by simp
  moreover have "from_heap h ?sc"
    using from_heap_grows [OF Cons.prems(1) brute_force_compare_grows] .
  ultimately show ?case using Cons.IH [of ?sc] Cons.prems(3) by simp
qed

lemma brute_force_outer_all:
  assumes "closed_under_difference Q" "from_heap h sc" "all_inferred Q sc"
    and "\<forall>a \<in> set as. a < length h \<and> Q (h ! a)" "\<forall>b \<in> set kb. b < length h \<and> Q (h ! b)"
  shows "all_inferred Q (brute_force_outer as kb sc)"
  using assms(2,3,4)
proof (induction as arbitrary: sc)
  case Nil
  then show ?case by simp
next
  case (Cons a as)
  let ?sc = "brute_force_inner a kb sc"
  have "all_inferred Q ?sc"
    using brute_force_inner_all [OF assms(1) Cons.prems(1,2) _ _ assms(5)] Cons.prems(3) by simp
  moreover have "from_heap h ?sc"
    using from_heap_grows [OF Cons.prems(1) brute_force_inner_grows] .
  ultimately show ?case using Cons.IH [of ?sc] Cons.prems(3) by simp
qed

subsection \<open>Divide and conquer\<close>

lemma divide_and_conquer_compare_all:
  assumes "closed_under_difference Q" "all_inferred Q (fst acc)"
    and "Q (store (fst acc) ! l)" "Q (store (fst acc) ! r)"
  shows "all_inferred Q (fst (divide_and_conquer_compare l r acc))"
  using all_inferred_difference [OF assms(1),
      of "(fst acc)\<lparr>comparisons := comparisons (fst acc) + 1\<rparr>"
      "store (fst acc) ! l" "store (fst acc) ! r"] assms
  by (simp add: divide_and_conquer_compare_def Let_def)

text \<open>The statements compared in a merge are merged statements of the two halves:
  objects of the store \<open>h\<close> the merge started from.\<close>

lemma divide_and_conquer_inner_all:
  assumes "closed_under_difference Q" "grows sc0 (fst acc)" "all_inferred Q (fst acc)"
    and "l < length (store sc0)" "Q (store sc0 ! l)"
    and "\<forall>r \<in> set rs. r < length (store sc0) \<and> Q (store sc0 ! r)"
  shows "all_inferred Q (fst (divide_and_conquer_inner l rs acc))"
  using assms(2,3,6)
proof (induction rs arbitrary: acc)
  case Nil
  then show ?case by simp
next
  case (Cons r rs)
  let ?acc = "divide_and_conquer_compare l r acc"
  have "Q (store (fst acc) ! l)" "Q (store (fst acc) ! r)"
    using grows_nth [OF Cons.prems(1)] assms(4,5) Cons.prems(3) by simp_all
  then have "all_inferred Q (fst ?acc)"
    using divide_and_conquer_compare_all [OF assms(1) Cons.prems(2)] by simp
  moreover have "grows sc0 (fst ?acc)"
    using grows_trans [OF Cons.prems(1) divide_and_conquer_compare_grows] .
  ultimately show ?case using Cons.IH [of ?acc] Cons.prems(3) by simp
qed

lemma divide_and_conquer_outer_all:
  assumes "closed_under_difference Q" "grows sc0 (fst acc)" "all_inferred Q (fst acc)"
    and "\<forall>l \<in> set ls. l < length (store sc0) \<and> Q (store sc0 ! l)"
    and "\<forall>r \<in> set rs. r < length (store sc0) \<and> Q (store sc0 ! r)"
  shows "all_inferred Q (fst (divide_and_conquer_outer ls rs acc))"
  using assms(2,3,4)
proof (induction ls arbitrary: acc)
  case Nil
  then show ?case by simp
next
  case (Cons l ls)
  let ?acc = "divide_and_conquer_inner l rs acc"
  have "all_inferred Q (fst ?acc)"
    using divide_and_conquer_inner_all [OF assms(1) Cons.prems(1,2) _ _ assms(5)] Cons.prems(3)
    by simp
  moreover have "grows sc0 (fst ?acc)"
    using grows_trans [OF Cons.prems(1) divide_and_conquer_inner_grows] .
  ultimately show ?case using Cons.IH [of ?acc] Cons.prems(3) by simp
qed

lemma divide_and_conquer_all:
  assumes "closed_under_difference Q"
  shows "end < length kb \<Longrightarrow> \<forall>x \<in> set kb. x < length h \<and> Q (h ! x) \<Longrightarrow>
         all_inferred Q (fst (divide_and_conquer h kb start end))"
proof (induction h kb start "end" rule: divide_and_conquer.induct)
  case (1 h kb start "end")
  show ?case
  proof (cases "start \<ge> end")
    case True
    then show ?thesis
      using "1.prems"
      by (subst divide_and_conquer.simps) (auto simp: all_inferred_def)
  next
    case False
    define mid where "mid = (start + end) div 2"
    define left where "left = divide_and_conquer h kb start mid"
    define right where "right = divide_and_conquer (store (fst left)) kb (mid + 1) end"
    define sc0 where "sc0 = \<lparr>store = store (fst right),
                inferred = inferred (fst left) @ inferred (fst right),
                comparisons = comparisons (fst left) + comparisons (fst right)\<rparr>"
    define res where "res = divide_and_conquer_outer (inferred (fst left)) (inferred (fst right))
              (sc0, snd left + snd right)"
    have lt: "start < end" using False by simp
    have bounds: "start \<le> mid" "mid < end" "mid + 1 \<le> end" "mid < length kb"
      using lt "1.prems" by (auto simp: mid_def)
    have eq: "divide_and_conquer h kb start end = res"
      using lt
      by (subst divide_and_conquer.simps)
         (simp add: Let_def res_def sc0_def left_def right_def mid_def)
    have L: "all_inferred Q (fst left)"
      using "1.IH"(1) [OF _ _ mid_def] lt bounds "1.prems"(2) unfolding left_def by auto
    have Lm: "merged h kb (fst left)"
      using divide_and_conquer_merged [OF bounds(4), of h start] by (simp add: left_def)
    then obtain e1 where e1: "store (fst left) = h @ e1" by (auto simp: merged_def)
    have kb': "\<forall>x \<in> set kb. x < length (store (fst left)) \<and> Q (store (fst left) ! x)"
      using "1.prems"(2) e1 by (auto simp: nth_append)
    have R: "all_inferred Q (fst right)"
      using "1.IH"(2) [OF _ _ mid_def left_def] lt bounds "1.prems"(1) kb'
      unfolding right_def by auto
    have Rm: "merged (store (fst left)) kb (fst right)"
      using divide_and_conquer_merged [OF "1.prems"(1), of "store (fst left)" "mid + 1"]
      by (simp add: right_def)
    then obtain e2 where e2: "store (fst right) = store (fst left) @ e2" by (auto simp: merged_def)
    have Ls: "\<forall>l \<in> set (inferred (fst left)). l < length (store sc0) \<and> Q (store sc0 ! l)"
      using L e2 by (auto simp: all_inferred_def sc0_def nth_append)
    have Rs: "\<forall>r \<in> set (inferred (fst right)). r < length (store sc0) \<and> Q (store sc0 ! r)"
      using R by (auto simp: all_inferred_def sc0_def)
    have "all_inferred Q sc0"
      using Ls Rs by (auto simp: all_inferred_def sc0_def)
    then have "all_inferred Q (fst res)"
      unfolding res_def
      using divide_and_conquer_outer_all [OF assms, of sc0 "(sc0, snd left + snd right)"] Ls Rs
      by (simp add: grows_refl)
    then show ?thesis unfolding eq .
  qed
qed

subsection \<open>Dynamic programming\<close>

lemma dynamic_programming_compare_all:
  assumes "closed_under_difference Q" "all_inferred Q (fst acc)"
    and "Q (store (fst acc) ! a)" "Q (store (fst acc) ! b)"
  shows "all_inferred Q (fst (dynamic_programming_compare a b acc))"
  using all_inferred_difference [OF assms(1),
      of "(fst acc)\<lparr>comparisons := comparisons (fst acc) + 1\<rparr>"
      "store (fst acc) ! a" "store (fst acc) ! b"] assms
  by (simp add: dynamic_programming_compare_def Let_def)

lemma dynamic_programming_inner_all:
  assumes "closed_under_difference Q" "from_heap h (fst acc)" "all_inferred Q (fst acc)"
    and "a < length h" "Q (h ! a)" "\<forall>b \<in> set bs. b < length h \<and> Q (h ! b)"
  shows "all_inferred Q (fst (dynamic_programming_inner a bs acc))"
  using assms(2,3,6)
proof (induction bs arbitrary: acc)
  case Nil
  then show ?case by simp
next
  case (Cons b bs)
  let ?acc = "dynamic_programming_compare a b acc"
  have "Q (store (fst acc) ! a)" "Q (store (fst acc) ! b)"
    using from_heap_nth [OF Cons.prems(1)] assms(4,5) Cons.prems(3) by simp_all
  then have "all_inferred Q (fst ?acc)"
    using dynamic_programming_compare_all [OF assms(1) Cons.prems(2)] by simp
  moreover have "from_heap h (fst ?acc)"
    using from_heap_grows [OF Cons.prems(1) dynamic_programming_compare_grows] .
  ultimately show ?case using Cons.IH [of ?acc] Cons.prems(3) by simp
qed

lemma dynamic_programming_outer_all:
  assumes "closed_under_difference Q" "from_heap h (fst acc)" "all_inferred Q (fst acc)"
    and "\<forall>a \<in> set as. a < length h \<and> Q (h ! a)"
  shows "all_inferred Q (fst (dynamic_programming_outer as acc))"
  using assms(2,3,4)
proof (induction as arbitrary: acc)
  case Nil
  then show ?case by simp
next
  case (Cons a as)
  let ?acc = "dynamic_programming_inner a as acc"
  have "all_inferred Q (fst ?acc)"
    using dynamic_programming_inner_all [OF assms(1) Cons.prems(1,2), of a as] Cons.prems(3)
    by simp
  moreover have "from_heap h (fst ?acc)"
    using from_heap_grows [OF Cons.prems(1) dynamic_programming_inner_grows] .
  ultimately show ?case using Cons.IH [of ?acc] Cons.prems(3) by simp
qed

subsection \<open>Greedy by mine count\<close>

lemma greedy_minecount_inner_all:
  assumes "closed_under_difference Q" "from_heap h sc" "all_inferred Q sc"
    and "cur < length h" "Q (h ! cur)" "\<forall>b \<in> set rest. b < length h \<and> Q (h ! b)"
  shows "all_inferred Q (greedy_minecount_inner cur rest sc)"
  using assms(2,3,6)
proof (induction rest arbitrary: sc)
  case Nil
  then show ?case by simp
next
  case (Cons nxt rest)
  have q: "Q (store sc ! cur)" "Q (store sc ! nxt)"
    using from_heap_nth [OF Cons.prems(1)] assms(4,5) Cons.prems(3) by simp_all
  show ?case
  proof (cases "cell_positions (store sc ! nxt) |\<subseteq>| cell_positions (store sc ! cur)")
    case True
    let ?sc = "(append_if_new (difference_statement (store sc ! nxt) (store sc ! cur)) sc)
                 \<lparr>comparisons := comparisons sc + 1\<rparr>"
    have "all_inferred Q ?sc"
      using all_inferred_difference [OF assms(1) Cons.prems(2) q(2,1) True] by simp
    moreover have "from_heap h ?sc"
      using from_heap_grows [OF Cons.prems(1), of ?sc] by (simp add: append_if_new_grows)
    ultimately show ?thesis using Cons.IH [of ?sc] Cons.prems(3) True by (simp add: Let_def)
  next
    case False
    then show ?thesis using Cons.prems(2) by (simp add: Let_def)
  qed
qed

lemma greedy_minecount_outer_all:
  assumes "closed_under_difference Q" "from_heap h sc" "all_inferred Q sc"
    and "\<forall>a \<in> set rs. a < length h \<and> Q (h ! a)"
  shows "all_inferred Q (greedy_minecount_outer rs sc)"
  using assms(2,3,4)
proof (induction rs arbitrary: sc)
  case Nil
  then show ?case by simp
next
  case (Cons a rs)
  let ?sc = "greedy_minecount_inner a rs sc"
  have "all_inferred Q ?sc"
    using greedy_minecount_inner_all [OF assms(1) Cons.prems(1,2), of a rs] Cons.prems(3) by simp
  moreover have "from_heap h ?sc"
    using from_heap_grows [OF Cons.prems(1) greedy_minecount_inner_grows] .
  ultimately show ?case using Cons.IH [of ?sc] Cons.prems(3) by simp
qed

subsection \<open>Breadth first and depth first search\<close>

lemma bfs_compare_tree:
  assumes "closed_under_difference Q" "tree_all Q st" "node_ok Q (ts_scan st) kb"
    and "a \<in> set kb" "b \<in> set kb"
  shows "tree_all Q (bfs_compare kb a b st)"
proof -
  let ?sc = "ts_scan st"
  let ?sc1 = "?sc\<lparr>comparisons := comparisons ?sc + 1\<rparr>"
  let ?new = "difference_statement (store ?sc ! a) (store ?sc ! b)"
  have q: "Q (store ?sc ! a)" "Q (store ?sc ! b)"
    using assms(3,4,5) by (auto simp: node_ok_def)
  have plain: "tree_all Q (st\<lparr>ts_scan := ?sc1\<rparr>)"
    using assms(2) by (simp add: tree_all_def node_ok_def)
  show ?thesis
  proof (cases "cell_positions (store ?sc ! a) |\<subseteq>| cell_positions (store ?sc ! b)
                 \<and> ?new \<notin> set (deref (store ?sc) (inferred ?sc))")
    case True
    then have sub: "cell_positions (store ?sc ! a) |\<subseteq>| cell_positions (store ?sc ! b)" by simp
    have qn: "Q ?new" using assms(1) q sub by (auto simp: closed_under_difference_def)
    have g: "grows ?sc (append_if_new ?new ?sc1)"
      using append_if_new_grows [of ?sc1 ?new] by simp
    have st': "bfs_compare kb a b st =
        st\<lparr>ts_scan := append_if_new ?new ?sc1,
           ts_frontier := ts_frontier st @ [kb @ [length (store ?sc)]]\<rparr>"
      using True by (simp add: bfs_compare_def Let_def)
    have a1: "all_inferred Q (append_if_new ?new ?sc1)"
      using all_inferred_append_if_new [of Q ?sc1 ?new] qn assms(2) by (simp add: tree_all_def)
    have s1: "store (append_if_new ?new ?sc1) = store ?sc @ [?new]"
      using True by (simp add: append_if_new_def)
    have old: "node_ok Q (append_if_new ?new ?sc1) node" if "node_ok Q ?sc node" for node
      using that s1 by (auto simp: node_ok_def nth_append)
    have "node_ok Q (append_if_new ?new ?sc1) (kb @ [length (store ?sc)])"
      using old [OF assms(3)] qn s1 by (auto simp: node_ok_def)
    then show ?thesis
      unfolding st' using a1 old assms(2) by (auto simp: tree_all_def)
  next
    case False
    then have "bfs_compare kb a b st = st\<lparr>ts_scan := ?sc1\<rparr>"
      by (auto simp: bfs_compare_def Let_def)
    then show ?thesis using plain by simp
  qed
qed

lemma bfs_compare_node:
  "node_ok Q (ts_scan st) node \<Longrightarrow> node_ok Q (ts_scan (bfs_compare kb a b st)) node"
  using grows_nth [OF bfs_compare_grows, of _ st kb a b] grows_length [OF bfs_compare_grows, of st kb a b]
  by (fastforce simp: node_ok_def)

lemma bfs_inner_tree:
  assumes "closed_under_difference Q" "tree_all Q st" "node_ok Q (ts_scan st) kb"
    and "a \<in> set kb" "set bs \<subseteq> set kb"
  shows "tree_all Q (bfs_inner kb a bs st) \<and> node_ok Q (ts_scan (bfs_inner kb a bs st)) kb"
  using assms(2,3,5)
proof (induction bs arbitrary: st)
  case Nil
  then show ?case by simp
next
  case (Cons b bs)
  let ?st = "bfs_compare kb a b st"
  have "tree_all Q ?st"
    using bfs_compare_tree [OF assms(1) Cons.prems(1,2) assms(4)] Cons.prems(3) by simp
  moreover have "node_ok Q (ts_scan ?st) kb"
    using bfs_compare_node [OF Cons.prems(2)] .
  ultimately show ?case using Cons.IH [of ?st] Cons.prems(3) by simp
qed

lemma bfs_pairs_tree:
  assumes "closed_under_difference Q" "tree_all Q st" "node_ok Q (ts_scan st) kb"
    and "set as \<subseteq> set kb"
  shows "tree_all Q (bfs_pairs kb as st)"
  using assms(2,3,4)
proof (induction as arbitrary: st)
  case Nil
  then show ?case by simp
next
  case (Cons a as)
  let ?st = "bfs_inner kb a as st"
  have "tree_all Q ?st \<and> node_ok Q (ts_scan ?st) kb"
    using bfs_inner_tree [OF assms(1) Cons.prems(1,2), of a as] Cons.prems(3) by simp
  then show ?case using Cons.IH [of ?st] Cons.prems(3) by simp
qed

lemma bfs_loop_tree:
  assumes "bfs_loop st = Some st'" "closed_under_difference Q"
  shows "tree_all Q st \<longrightarrow> tree_all Q st'"
proof (rule bfs_loop.raw_induct [where P = "\<lambda>st st'. tree_all Q st \<longrightarrow> tree_all Q st'", OF _ assms(1)],
    goal_cases)
  case (1 loop st st')
  show ?case
  proof
    assume t: "tree_all Q st"
    show "tree_all Q st'"
    proof (cases "ts_frontier st")
      case Nil
      then show ?thesis using 1(2) t by simp
    next
      case (Cons current_kb queue)
      let ?key = "kb_key_of (store (ts_scan st)) current_kb"
      have t1: "tree_all Q (st\<lparr>ts_frontier := queue\<rparr>)"
        and n: "node_ok Q (ts_scan st) current_kb"
        using t Cons by (simp_all add: tree_all_def)
      show ?thesis
      proof (cases "?key \<in> ts_visited st")
        case True
        then have "loop (st\<lparr>ts_frontier := queue\<rparr>) = Some st'"
          using 1(2) Cons by (simp add: Let_def)
        from 1(1) [OF this] t1 show ?thesis by simp
      next
        case False
        let ?st1 = "st\<lparr>ts_frontier := queue, ts_visited := insert ?key (ts_visited st)\<rparr>"
        let ?st = "bfs_pairs current_kb current_kb ?st1"
        have "loop ?st = Some st'" using 1(2) Cons False by (simp add: Let_def)
        moreover have "tree_all Q ?st"
          using bfs_pairs_tree [OF assms(2), of ?st1 current_kb current_kb] t1 n
          by (simp add: tree_all_def)
        ultimately show ?thesis using 1(1) by blast
      qed
    qed
  qed
qed

lemma dfs_compare_tree:
  assumes "closed_under_difference Q" "tree_all Q st" "node_ok Q (ts_scan st) kb"
    and "a \<in> set kb" "b \<in> set kb"
  shows "tree_all Q (dfs_compare kb a b st)"
proof -
  let ?sc = "ts_scan st"
  let ?sc1 = "?sc\<lparr>comparisons := comparisons ?sc + 1\<rparr>"
  let ?new = "difference_statement (store ?sc ! a) (store ?sc ! b)"
  have q: "Q (store ?sc ! a)" "Q (store ?sc ! b)"
    using assms(3,4,5) by (auto simp: node_ok_def)
  have plain: "tree_all Q (st\<lparr>ts_scan := ?sc1\<rparr>)"
    using assms(2) by (simp add: tree_all_def node_ok_def)
  show ?thesis
  proof (cases "cell_positions (store ?sc ! a) |\<subseteq>| cell_positions (store ?sc ! b)
                 \<and> mine_count ?new \<ge> 0 \<and> cell_positions ?new \<noteq> {||} \<and> ?new \<notin> set (deref (store ?sc) (inferred ?sc))")
    case True
    then have sub: "cell_positions (store ?sc ! a) |\<subseteq>| cell_positions (store ?sc ! b)" by simp
    have qn: "Q ?new" using assms(1) q sub by (auto simp: closed_under_difference_def)
    have g: "grows ?sc (append_if_new ?new ?sc1)"
      using append_if_new_grows [of ?sc1 ?new] by simp
    have st': "dfs_compare kb a b st =
        st\<lparr>ts_scan := append_if_new ?new ?sc1,
           ts_frontier := ts_frontier st @ [kb @ [length (store ?sc)]]\<rparr>"
      using True by (simp add: dfs_compare_def Let_def)
    have a1: "all_inferred Q (append_if_new ?new ?sc1)"
      using all_inferred_append_if_new [of Q ?sc1 ?new] qn assms(2) by (simp add: tree_all_def)
    have s1: "store (append_if_new ?new ?sc1) = store ?sc @ [?new]"
      using True by (simp add: append_if_new_def)
    have old: "node_ok Q (append_if_new ?new ?sc1) node" if "node_ok Q ?sc node" for node
      using that s1 by (auto simp: node_ok_def nth_append)
    have "node_ok Q (append_if_new ?new ?sc1) (kb @ [length (store ?sc)])"
      using old [OF assms(3)] qn s1 by (auto simp: node_ok_def)
    then show ?thesis
      unfolding st' using a1 old assms(2) by (auto simp: tree_all_def)
  next
    case False
    then have "dfs_compare kb a b st = st\<lparr>ts_scan := ?sc1\<rparr>"
      by (auto simp: dfs_compare_def Let_def)
    then show ?thesis using plain by simp
  qed
qed

lemma dfs_compare_node:
  "node_ok Q (ts_scan st) node \<Longrightarrow> node_ok Q (ts_scan (dfs_compare kb a b st)) node"
  using grows_nth [OF dfs_compare_grows, of _ st kb a b] grows_length [OF dfs_compare_grows, of st kb a b]
  by (fastforce simp: node_ok_def)

lemma dfs_inner_tree:
  assumes "closed_under_difference Q" "tree_all Q st" "node_ok Q (ts_scan st) kb"
    and "a \<in> set kb" "set bs \<subseteq> set kb"
  shows "tree_all Q (dfs_inner kb a bs st) \<and> node_ok Q (ts_scan (dfs_inner kb a bs st)) kb"
  using assms(2,3,5)
proof (induction bs arbitrary: st)
  case Nil
  then show ?case by simp
next
  case (Cons b bs)
  let ?st = "dfs_compare kb a b st"
  have "tree_all Q ?st"
    using dfs_compare_tree [OF assms(1) Cons.prems(1,2) assms(4)] Cons.prems(3) by simp
  moreover have "node_ok Q (ts_scan ?st) kb"
    using dfs_compare_node [OF Cons.prems(2)] .
  ultimately show ?case using Cons.IH [of ?st] Cons.prems(3) by simp
qed

lemma dfs_pairs_tree:
  assumes "closed_under_difference Q" "tree_all Q st" "node_ok Q (ts_scan st) kb"
    and "set as \<subseteq> set kb"
  shows "tree_all Q (dfs_pairs kb as st)"
  using assms(2,3,4)
proof (induction as arbitrary: st)
  case Nil
  then show ?case by simp
next
  case (Cons a as)
  let ?st = "dfs_inner kb a as st"
  have "tree_all Q ?st \<and> node_ok Q (ts_scan ?st) kb"
    using dfs_inner_tree [OF assms(1) Cons.prems(1,2), of a as] Cons.prems(3) by simp
  then show ?case using Cons.IH [of ?st] Cons.prems(3) by simp
qed

lemma dfs_loop_tree:
  assumes "dfs_loop st = Some st'" "closed_under_difference Q"
  shows "tree_all Q st \<longrightarrow> tree_all Q st'"
proof (rule dfs_loop.raw_induct [where P = "\<lambda>st st'. tree_all Q st \<longrightarrow> tree_all Q st'", OF _ assms(1)],
    goal_cases)
  case (1 loop st st')
  show ?case
  proof
    assume t: "tree_all Q st"
    show "tree_all Q st'"
    proof (cases "ts_frontier st = []")
      case True
      then show ?thesis using 1(2) t by simp
    next
      case nonempty: False
      let ?kb = "last (ts_frontier st)"
      let ?key = "kb_key_of (store (ts_scan st)) ?kb"
      have t1: "tree_all Q (st\<lparr>ts_frontier := butlast (ts_frontier st)\<rparr>)"
        and n: "node_ok Q (ts_scan st) ?kb"
        using t nonempty by (auto simp: tree_all_def dest: in_set_butlastD)
      show ?thesis
      proof (cases "?key \<in> ts_visited st")
        case True
        then have "loop (st\<lparr>ts_frontier := butlast (ts_frontier st)\<rparr>) = Some st'"
          using 1(2) nonempty by (simp add: Let_def)
        from 1(1) [OF this] t1 show ?thesis by simp
      next
        case False
        let ?st1 = "st\<lparr>ts_frontier := butlast (ts_frontier st),
                       ts_visited := insert ?key (ts_visited st)\<rparr>"
        let ?st = "dfs_pairs ?kb ?kb ?st1"
        have "loop ?st = Some st'" using 1(2) nonempty False by (simp add: Let_def)
        moreover have "tree_all Q ?st"
          using dfs_pairs_tree [OF assms(2), of ?st1 ?kb ?kb] t1 n
          by (simp add: tree_all_def)
        ultimately show ?thesis using 1(1) by blast
      qed
    qed
  qed
qed

subsection \<open>All seven\<close>

lemma run_algorithm_all:
  assumes "closed_under_difference Q" "run_algorithm alg g h kb n = Some r"
    and kb: "\<forall>x \<in> set kb. x < length h \<and> Q (h ! x)"
  shows "\<forall>x \<in> set (result_inferred r). x < length (result_store r) \<and> Q (result_store r ! x)"
proof -
  let ?sc0 = "\<lparr>store = h, inferred = [], comparisons = n\<rparr>"
  have init: "from_heap h ?sc0" "all_inferred Q ?sc0"
    by (simp_all add: from_heap_initial all_inferred_def)
  have "\<exists>sc. all_inferred Q sc \<and> result_inferred r = inferred sc \<and> result_store r = store sc"
  proof (cases alg)
    case Brute_force
    then show ?thesis
      using assms(2) brute_force_outer_all [OF assms(1) init kb kb]
      by (auto simp: brute_force_search_def finish_search_def)
  next
    case Divide_and_conquer
    show ?thesis
    proof (cases "kb = []")
      case True
      then have "result_inferred r = inferred ?sc0 \<and> result_store r = store ?sc0"
        using assms(2) Divide_and_conquer by (auto simp: divide_and_conquer_search_def)
      then show ?thesis using init(2) by blast
    next
      case False
      then have "length kb - 1 < length kb" by simp
      from divide_and_conquer_all [OF assms(1) this kb, of 0] show ?thesis
        using assms(2) Divide_and_conquer False
        by (auto simp: divide_and_conquer_search_def Let_def)
    qed
  next
    case Dynamic_programming
    have "\<forall>a \<in> set (sorted_by_lt h kb). a < length h \<and> Q (h ! a)"
      using kb by (simp add: sorted_by_lt_def)
    from dynamic_programming_outer_all [OF assms(1), of h "(?sc0, {})", OF _ _ this] init
    show ?thesis
      using assms(2) Dynamic_programming
      by (auto simp: dynamic_programming_search_def finish_search_def)
  next
    case Greedy_algorithm_size
    then have "result_inferred r = inferred ?sc0 \<and> result_store r = store ?sc0"
      using assms(2) greedy_algorithm_size_search_idle [of g h kb n] by auto
    then show ?thesis using init(2) by blast
  next
    case Greedy_algorithm_minecount
    have "\<forall>a \<in> set (sorted_by_lt_reverse h kb). a < length h \<and> Q (h ! a)"
      using kb by (simp add: sorted_by_lt_reverse_def)
    from greedy_minecount_outer_all [OF assms(1) init this] show ?thesis
      using assms(2) Greedy_algorithm_minecount
      by (auto simp: greedy_algorithm_minecount_search_def finish_search_def)
  next
    case Bfs
    let ?st0 = "\<lparr>ts_scan = ?sc0, ts_frontier = [sorted_by_size h kb], ts_visited = {}\<rparr>"
    from Bfs obtain st where st: "bfs_loop ?st0 = Some st"
      and r: "r = finish_search kb g (ts_scan st)"
      using assms(2) by (auto simp: bfs_search_def)
    have "tree_all Q ?st0"
      using kb init(2) by (simp add: tree_all_def node_ok_def sorted_by_size_def)
    then have "tree_all Q st" using bfs_loop_tree [OF st assms(1)] by simp
    then show ?thesis using r by (auto simp: tree_all_def finish_search_def)
  next
    case Dfs
    let ?st0 = "\<lparr>ts_scan = ?sc0, ts_frontier = [sorted_by_negated_size h kb], ts_visited = {}\<rparr>"
    from Dfs obtain st where st: "dfs_loop ?st0 = Some st"
      and r: "r = finish_search kb g (ts_scan st)"
      using assms(2) by (auto simp: dfs_search_def)
    have "tree_all Q ?st0"
      using kb init(2) by (simp add: tree_all_def node_ok_def sorted_by_negated_size_def)
    then have "tree_all Q st" using dfs_loop_tree [OF st assms(1)] by simp
    then show ?thesis using r by (auto simp: tree_all_def finish_search_def)
  qed
  then show ?thesis by (auto simp: all_inferred_def)
qed

section \<open>Well-formed solver states\<close>

lemma length_mark_statements [simp]: "length (mark_statements f rs h) = length h"
  unfolding mark_statements_def by (induction rs arbitrary: h) simp_all

lemma mark_statements_nth:
  assumes "\<And>s. f (f s) = f s" "r < length h" "\<forall>x \<in> set rs. x < length h"
  shows "mark_statements f rs h ! r = (if r \<in> set rs then f (h ! r) else h ! r)"
  using assms(2,3) unfolding mark_statements_def
proof (induction rs arbitrary: h)
  case Nil
  then show ?case by simp
next
  case (Cons x rs)
  let ?h = "h[x := f (h ! x)]"
  have "fold (\<lambda>r h'. h'[r := f (h' ! r)]) rs ?h ! r = (if r \<in> set rs then f (?h ! r) else ?h ! r)"
    using Cons.prems by (intro Cons.IH) simp_all
  then show ?case using Cons.prems assms(1) by (auto simp: nth_list_update)
qed

lemma statement_mark_cell_as_safe_idem:
  "statement_mark_cell_as_safe c (statement_mark_cell_as_safe c s) = statement_mark_cell_as_safe c s"
  by (simp add: statement_mark_cell_as_safe_def)

lemma statement_mark_cell_as_mine_idem:
  "statement_mark_cell_as_mine c (statement_mark_cell_as_mine c s) = statement_mark_cell_as_mine c s"
  by (simp add: statement_mark_cell_as_mine_def)

lemma cell_positions_mark_safe [simp]:
  "cell_positions (statement_mark_cell_as_safe c s) = cell_positions s |-| {|c|}"
  by (auto simp: statement_mark_cell_as_safe_def)

lemma cell_positions_mark_mine [simp]:
  "cell_positions (statement_mark_cell_as_mine c s) = cell_positions s |-| {|c|}"
  by (auto simp: statement_mark_cell_as_mine_def)

lemma mark_cell_as_safe_fields [simp]:
  "knowledge_base (mark_cell_as_safe c ai) = knowledge_base ai"
  "identified_safe_cells (mark_cell_as_safe c ai) = finsert c (identified_safe_cells ai)"
  "identified_mines (mark_cell_as_safe c ai) = identified_mines ai"
  "grid_size (mark_cell_as_safe c ai) = grid_size ai"
  "moves_made (mark_cell_as_safe c ai) = moves_made ai"
  "search_algorithm_method (mark_cell_as_safe c ai) = search_algorithm_method ai"
  "objects (mark_cell_as_safe c ai)
     = mark_statements (statement_mark_cell_as_safe c) (knowledge_base ai) (objects ai)"
  by (auto simp: mark_cell_as_safe_def Let_def)

lemma mark_cell_as_mine_fields [simp]:
  "knowledge_base (mark_cell_as_mine c ai) = knowledge_base ai"
  "identified_safe_cells (mark_cell_as_mine c ai) = identified_safe_cells ai"
  "identified_mines (mark_cell_as_mine c ai) = finsert c (identified_mines ai)"
  "grid_size (mark_cell_as_mine c ai) = grid_size ai"
  "moves_made (mark_cell_as_mine c ai) = moves_made ai"
  "search_algorithm_method (mark_cell_as_mine c ai) = search_algorithm_method ai"
  "objects (mark_cell_as_mine c ai)
     = mark_statements (statement_mark_cell_as_mine c) (knowledge_base ai) (objects ai)"
  by (auto simp: mark_cell_as_mine_def)

lemma mark_cell_as_safe_well_formed:
  assumes "well_formed ai"
  shows "well_formed (mark_cell_as_safe c ai)"
  unfolding well_formed_def
proof
  fix r assume r: "r \<in> set (knowledge_base (mark_cell_as_safe c ai))"
  then have v: "r < length (objects ai)" and u: "unresolved ai (objects ai ! r)"
    using assms by (auto simp: well_formed_def)
  have "objects (mark_cell_as_safe c ai) ! r = statement_mark_cell_as_safe c (objects ai ! r)"
    using mark_statements_nth [of "statement_mark_cell_as_safe c" r "objects ai" "knowledge_base ai"]
      r v assms by (auto simp: well_formed_def statement_mark_cell_as_safe_idem)
  then show "r < length (objects (mark_cell_as_safe c ai)) \<and>
        unresolved (mark_cell_as_safe c ai) (objects (mark_cell_as_safe c ai) ! r)"
    using v u by (auto simp: unresolved_def)
qed

lemma mark_cell_as_mine_well_formed:
  assumes "well_formed ai"
  shows "well_formed (mark_cell_as_mine c ai)"
  unfolding well_formed_def
proof
  fix r assume r: "r \<in> set (knowledge_base (mark_cell_as_mine c ai))"
  then have v: "r < length (objects ai)" and u: "unresolved ai (objects ai ! r)"
    using assms by (auto simp: well_formed_def)
  have "objects (mark_cell_as_mine c ai) ! r = statement_mark_cell_as_mine c (objects ai ! r)"
    using mark_statements_nth [of "statement_mark_cell_as_mine c" r "objects ai" "knowledge_base ai"]
      r v assms by (auto simp: well_formed_def statement_mark_cell_as_mine_idem)
  then show "r < length (objects (mark_cell_as_mine c ai)) \<and>
        unresolved (mark_cell_as_mine c ai) (objects (mark_cell_as_mine c ai) ! r)"
    using v u by (auto simp: unresolved_def)
qed

lemma fold_mark_cell_as_safe_well_formed:
  "well_formed ai \<Longrightarrow> well_formed (fold mark_cell_as_safe cs ai)"
  by (induction cs arbitrary: ai) (simp_all add: mark_cell_as_safe_well_formed)

lemma fold_mark_cell_as_mine_well_formed:
  "well_formed ai \<Longrightarrow> well_formed (fold mark_cell_as_mine cs ai)"
  by (induction cs arbitrary: ai) (simp_all add: mark_cell_as_mine_well_formed)

lemma purge_loop_subset:
  "set (cleaned_knowledge_base (purge_loop h rs st)) \<subseteq> set (cleaned_knowledge_base st) \<union> set rs"
proof (induction rs arbitrary: st)
  case Nil
  show ?case by simp
next
  case (Cons r rs)
  show ?case
    using Cons [of "st\<lparr>duplicate_count := duplicate_count st + 1\<rparr>"]
      Cons [of "st\<lparr>cleaned_knowledge_base := cleaned_knowledge_base st @ [r],
                    original_set := original_set st - {objects_value}\<rparr>" for objects_value]
      Cons [of st]
    by (auto split: if_splits)
qed

lemma remove_empty_and_duplicate_statements_fields [simp]:
  "objects (remove_empty_and_duplicate_statements ai) = objects ai"
  "identified_safe_cells (remove_empty_and_duplicate_statements ai) = identified_safe_cells ai"
  "identified_mines (remove_empty_and_duplicate_statements ai) = identified_mines ai"
  "grid_size (remove_empty_and_duplicate_statements ai) = grid_size ai"
  "moves_made (remove_empty_and_duplicate_statements ai) = moves_made ai"
  "search_algorithm_method (remove_empty_and_duplicate_statements ai) = search_algorithm_method ai"
  by (simp_all add: remove_empty_and_duplicate_statements_def Let_def)

lemma remove_empty_and_duplicate_statements_subset:
  "set (knowledge_base (remove_empty_and_duplicate_statements ai)) \<subseteq> set (knowledge_base ai)"
  using purge_loop_subset [of "objects ai" "knowledge_base ai"]
  by (fastforce simp: remove_empty_and_duplicate_statements_def Let_def)

lemma unresolved_cong:
  "grid_size ai' = grid_size ai \<Longrightarrow> identified_safe_cells ai' = identified_safe_cells ai \<Longrightarrow>
   identified_mines ai' = identified_mines ai \<Longrightarrow> unresolved ai' = unresolved ai"
  by (auto simp: unresolved_def fun_eq_iff)

lemma remove_empty_and_duplicate_statements_well_formed:
  "well_formed ai \<Longrightarrow> well_formed (remove_empty_and_duplicate_statements ai)"
  using remove_empty_and_duplicate_statements_subset [of ai]
    unresolved_cong [of "remove_empty_and_duplicate_statements ai" ai]
  by (auto simp: well_formed_def)

lemma mark_known_cells_well_formed:
  "well_formed ai \<Longrightarrow> well_formed (fst (mark_known_cells ai))"
  unfolding mark_known_cells_def Let_def fst_conv
  by (intro remove_empty_and_duplicate_statements_well_formed
      fold_mark_cell_as_mine_well_formed fold_mark_cell_as_safe_well_formed)

lemma closed_under_difference_unresolved: "closed_under_difference (unresolved ai)"
  by (auto simp: closed_under_difference_def unresolved_def difference_statement_def new_statement_def)

lemma merge_inferences_fields [simp]:
  "objects (fst (merge_inferences ai inferred_set marked r)) = result_store r"
  "identified_safe_cells (fst (merge_inferences ai inferred_set marked r)) = identified_safe_cells ai"
  "identified_mines (fst (merge_inferences ai inferred_set marked r)) = identified_mines ai"
  "grid_size (fst (merge_inferences ai inferred_set marked r)) = grid_size ai"
  "moves_made (fst (merge_inferences ai inferred_set marked r)) = moves_made ai"
  "search_algorithm_method (fst (merge_inferences ai inferred_set marked r)) = search_algorithm_method ai"
  by (simp_all add: merge_inferences_def Let_def)

lemma merge_inferences_knowledge_base:
  "knowledge_base (fst (merge_inferences ai inferred_set marked r))
     = result_knowledge_base r
       @ filter (\<lambda>inf. \<not> python_set_contains (result_store r) inferred_set inf) (result_inferred r)"
  by (simp add: merge_inferences_def Let_def)

lemma merge_inferences_well_formed:
  assumes "well_formed ai"
    and "run_algorithm (search_algorithm_method ai) (stat_generator ai) (objects ai)
           (knowledge_base ai) 0 = Some r"
  shows "well_formed (fst (merge_inferences ai inferred_set marked r))"
proof -
  let ?ai = "fst (merge_inferences ai inferred_set marked r)"
  have kb: "\<forall>x \<in> set (knowledge_base ai). x < length (objects ai) \<and> unresolved ai (objects ai ! x)"
    using assms(1) by (simp add: well_formed_def)
  from run_algorithm_frame [OF assms(2)]
  have f: "result_knowledge_base r = knowledge_base ai"
    "take (length (objects ai)) (result_store r) = objects ai" by simp_all
  have old: "result_store r ! x = objects ai ! x" "x < length (result_store r)"
    if "x < length (objects ai)" for x
    using f(2) that by (metis nth_take, metis length_take min_less_iff_conj)
  have new: "\<forall>x \<in> set (result_inferred r). x < length (result_store r) \<and> unresolved ai (result_store r ! x)"
    using run_algorithm_all [OF closed_under_difference_unresolved assms(2) kb] .
  have u: "unresolved ?ai = unresolved ai" by (rule unresolved_cong) simp_all
  show ?thesis
    unfolding well_formed_def u merge_inferences_knowledge_base f(1)
    using kb old new by auto
qed

lemma propagation_pass_well_formed:
  assumes "well_formed ai" "propagation_pass ai inferred_set = Some (ai', inferred_set', changed)"
  shows "well_formed ai'"
proof -
  from propagation_pass_SomeD [OF assms(2)] obtain r where
    r: "run_algorithm (search_algorithm_method (fst (mark_known_cells ai)))
               (stat_generator (fst (mark_known_cells ai))) (objects (fst (mark_known_cells ai)))
               (knowledge_base (fst (mark_known_cells ai))) 0 = Some r"
    and "(ai', inferred_set', changed) =
       merge_inferences (fst (mark_known_cells ai)) inferred_set (snd (mark_known_cells ai)) r"
    by blast
  then have "ai' = fst (merge_inferences (fst (mark_known_cells ai)) inferred_set
                          (snd (mark_known_cells ai)) r)"
    by (metis fst_conv)
  then show ?thesis
    using merge_inferences_well_formed [OF mark_known_cells_well_formed [OF assms(1)] r] by simp
qed

lemma fold_remove_known_mine_cells:
  "fst (fold remove_known_mine ms acc) = fst acc |-| fset_of_list ms"
  by (induction ms arbitrary: acc) (auto simp: remove_known_mine_def)

lemma surrounding_cells_of_in_grid:
  "c' |\<in>| surrounding_cells_of n c \<Longrightarrow> in_grid n c' \<and> c' \<noteq> c"
  by (auto simp: surrounding_cells_of_def in_grid_def fset_of_list_elem)

lemma add_statement_well_formed:
  assumes "well_formed ai"
  shows "well_formed (add_statement c n ai)"
proof -
  let ?ai1 = "ai\<lparr>stat_generator := reset_current_stats (stat_generator ai),
                   moves_made := finsert c (moves_made ai)\<rparr>"
  let ?ai2 = "mark_cell_as_safe c ?ai1"
  let ?acc = "fold remove_known_mine (sorted_list_of_fset (identified_mines ?ai2))
               (surrounding_cells_of (grid_size ?ai2) c |-| identified_safe_cells ?ai2, n)"
  let ?new = "new_statement (fst ?acc) (snd ?acc)"
  have "well_formed ?ai1"
    using assms unresolved_cong [of ?ai1 ai] by (simp add: well_formed_def)
  then have w2: "well_formed ?ai2" by (rule mark_cell_as_safe_well_formed)
  have cells: "fst ?acc = surrounding_cells_of (grid_size ?ai2) c |-| identified_safe_cells ?ai2
                  |-| identified_mines ?ai2"
    by (simp add: fold_remove_known_mine_cells)
  have un: "unresolved ?ai2 ?new"
    unfolding unresolved_def new_statement_def using cells
    by (auto dest: surrounding_cells_of_in_grid)
  show ?thesis
  proof (cases "fst ?acc = {||}")
    case True
    then show ?thesis using w2 by (simp add: add_statement_def Let_def case_prod_beta)
  next
    case False
    let ?ai3 = "?ai2\<lparr>objects := objects ?ai2 @ [?new],
                      knowledge_base := knowledge_base ?ai2 @ [length (objects ?ai2)]\<rparr>"
    have eq: "add_statement c n ai = ?ai3"
      using False by (simp add: add_statement_def Let_def case_prod_beta)
    have u: "unresolved ?ai3 = unresolved ?ai2" by (rule unresolved_cong) simp_all
    show ?thesis
      unfolding eq well_formed_def u using w2 un
      by (auto simp: well_formed_def nth_append)
  qed
qed

lemma add_knowledge_well_formed:
  assumes "well_formed ai" "add_knowledge c n ai = Some ai'"
  shows "well_formed ai'"
proof -
  let ?ai1 = "add_statement c n ai"
  let ?set = "python_set_update (objects ?ai1) (knowledge_base ?ai1) []"
  from assms(2) obtain res where
    loop: "propagation_loop ?ai1 ?set 0 = Some res"
    and ai': "ai' = (fst res)\<lparr>stat_generator := update_iterations (snd (snd res)) (stat_generator (fst res))\<rparr>"
    by (auto simp: add_knowledge_def Let_def split: prod.splits)
  have "well_formed (fst res)"
    by (rule propagation_loop_preserves [where I = "\<lambda>ai s. well_formed ai", OF loop])
       (auto intro: add_statement_well_formed assms(1) propagation_pass_well_formed)
  then show ?thesis
    using unresolved_cong [of ai' "fst res"] by (simp add: ai' well_formed_def)
qed

lemma make_safe_move_fields [simp]:
  "objects (snd (make_safe_move drawn ai)) = objects ai"
  "knowledge_base (snd (make_safe_move drawn ai)) = knowledge_base ai"
  "identified_safe_cells (snd (make_safe_move drawn ai)) = identified_safe_cells ai"
  "identified_mines (snd (make_safe_move drawn ai)) = identified_mines ai"
  "grid_size (snd (make_safe_move drawn ai)) = grid_size ai"
  "moves_made (snd (make_safe_move drawn ai)) = moves_made ai"
  "search_algorithm_method (snd (make_safe_move drawn ai)) = search_algorithm_method ai"
  by (simp_all add: make_safe_move_def split: prod.splits)

lemma reachable_well_formed: "reachable ai \<Longrightarrow> well_formed ai"
proof (induction rule: reachable.induct)
  case (constructed a_grid_size search_algorithm_name safe_cell_strategy)
  show ?case by (simp add: new_ai_def well_formed_def split: prod.splits)
next
  case (ingested ai c surrounding_mines_count ai')
  then show ?case using add_knowledge_well_formed by blast
next
  case (moved ai drawn)
  then show ?case
    using unresolved_cong [of "snd (make_safe_move drawn ai)" ai] by (simp add: well_formed_def)
qed

section \<open>What a pass of the loop does\<close>

lemma fold_mark_cell_as_safe_fields [simp]:
  "knowledge_base (fold mark_cell_as_safe cs ai) = knowledge_base ai"
  "identified_mines (fold mark_cell_as_safe cs ai) = identified_mines ai"
  "grid_size (fold mark_cell_as_safe cs ai) = grid_size ai"
  "moves_made (fold mark_cell_as_safe cs ai) = moves_made ai"
  "search_algorithm_method (fold mark_cell_as_safe cs ai) = search_algorithm_method ai"
  "length (objects (fold mark_cell_as_safe cs ai)) = length (objects ai)"
  "identified_safe_cells (fold mark_cell_as_safe cs ai) = identified_safe_cells ai |\<union>| fset_of_list cs"
  by (induction cs arbitrary: ai) auto

lemma fold_mark_cell_as_mine_fields [simp]:
  "knowledge_base (fold mark_cell_as_mine cs ai) = knowledge_base ai"
  "identified_safe_cells (fold mark_cell_as_mine cs ai) = identified_safe_cells ai"
  "grid_size (fold mark_cell_as_mine cs ai) = grid_size ai"
  "moves_made (fold mark_cell_as_mine cs ai) = moves_made ai"
  "search_algorithm_method (fold mark_cell_as_mine cs ai) = search_algorithm_method ai"
  "length (objects (fold mark_cell_as_mine cs ai)) = length (objects ai)"
  "identified_mines (fold mark_cell_as_mine cs ai) = identified_mines ai |\<union>| fset_of_list cs"
  by (induction cs arbitrary: ai) auto

lemma mark_known_cells_fields [simp]:
  "grid_size (fst (mark_known_cells ai)) = grid_size ai"
  "moves_made (fst (mark_known_cells ai)) = moves_made ai"
  "search_algorithm_method (fst (mark_known_cells ai)) = search_algorithm_method ai"
  "length (objects (fst (mark_known_cells ai))) = length (objects ai)"
  "identified_safe_cells (fst (mark_known_cells ai))
     = identified_safe_cells ai |\<union>| collect_known_safes (objects ai) (knowledge_base ai)"
  "identified_mines (fst (mark_known_cells ai))
     = identified_mines ai |\<union>| collect_known_mines (objects ai) (knowledge_base ai)"
  by (simp_all add: mark_known_cells_def Let_def)

text \<open>Marking cells only ever removes cells from a statement.\<close>

lemma mark_statements_shrinks:
  assumes "\<And>s. cell_positions (f s) |\<subseteq>| cell_positions s" "x < length h"
  shows "cell_positions (mark_statements f rs h ! x) |\<subseteq>| cell_positions (h ! x)"
  using assms(2) unfolding mark_statements_def
proof (induction rs arbitrary: h)
  case Nil
  show ?case by simp
next
  case (Cons r rs)
  let ?h = "h[r := f (h ! r)]"
  have "cell_positions (fold (\<lambda>r h'. h'[r := f (h' ! r)]) rs ?h ! x) |\<subseteq>| cell_positions (?h ! x)"
    using Cons.prems by (intro Cons.IH) simp
  moreover have "cell_positions (?h ! x) |\<subseteq>| cell_positions (h ! x)"
    using assms(1) Cons.prems by (cases "x = r") (simp_all add: nth_list_update)
  ultimately show ?case by auto
qed

lemma fold_mark_cell_as_safe_shrinks:
  "x < length (objects ai) \<Longrightarrow>
   cell_positions (objects (fold mark_cell_as_safe cs ai) ! x) |\<subseteq>| cell_positions (objects ai ! x)"
proof (induction cs arbitrary: ai)
  case Nil
  show ?case by simp
next
  case (Cons c cs)
  have "cell_positions (objects (mark_cell_as_safe c ai) ! x) |\<subseteq>| cell_positions (objects ai ! x)"
    unfolding mark_cell_as_safe_fields using Cons.prems
    by (intro mark_statements_shrinks) auto
  moreover have "cell_positions (objects (fold mark_cell_as_safe cs (mark_cell_as_safe c ai)) ! x)
      |\<subseteq>| cell_positions (objects (mark_cell_as_safe c ai) ! x)"
    using Cons.prems by (intro Cons.IH) simp
  ultimately show ?case by auto
qed

lemma fold_mark_cell_as_mine_shrinks:
  "x < length (objects ai) \<Longrightarrow>
   cell_positions (objects (fold mark_cell_as_mine cs ai) ! x) |\<subseteq>| cell_positions (objects ai ! x)"
proof (induction cs arbitrary: ai)
  case Nil
  show ?case by simp
next
  case (Cons c cs)
  have "cell_positions (objects (mark_cell_as_mine c ai) ! x) |\<subseteq>| cell_positions (objects ai ! x)"
    unfolding mark_cell_as_mine_fields using Cons.prems
    by (intro mark_statements_shrinks) auto
  moreover have "cell_positions (objects (fold mark_cell_as_mine cs (mark_cell_as_mine c ai)) ! x)
      |\<subseteq>| cell_positions (objects (mark_cell_as_mine c ai) ! x)"
    using Cons.prems by (intro Cons.IH) simp
  ultimately show ?case by auto
qed

lemma mark_known_cells_shrinks:
  assumes "x < length (objects ai)"
  shows "cell_positions (objects (fst (mark_known_cells ai)) ! x) |\<subseteq>| cell_positions (objects ai ! x)"
proof -
  let ?ai1 = "fold mark_cell_as_safe
     (sorted_list_of_fset (collect_known_safes (objects ai) (knowledge_base ai))) ai"
  let ?cs = "sorted_list_of_fset (collect_known_mines (objects ai) (knowledge_base ai))"
  have "cell_positions (objects (fold mark_cell_as_mine ?cs ?ai1) ! x)
          |\<subseteq>| cell_positions (objects ?ai1 ! x)"
    using assms by (intro fold_mark_cell_as_mine_shrinks) simp
  moreover have "cell_positions (objects ?ai1 ! x) |\<subseteq>| cell_positions (objects ai ! x)"
    using assms by (rule fold_mark_cell_as_safe_shrinks)
  ultimately show ?thesis by (auto simp: mark_known_cells_def Let_def)
qed

text \<open>The purge keeps no reference to an empty statement.\<close>

lemma purge_loop_nonempty:
  "x \<in> set (cleaned_knowledge_base (purge_loop h rs st)) \<Longrightarrow>
   x \<in> set (cleaned_knowledge_base st) \<or> cell_positions (h ! x) \<noteq> {||}"
proof (induction rs arbitrary: st)
  case Nil
  then show ?case by simp
next
  case (Cons r rs)
  from Cons.IH [OF Cons.prems [simplified]] show ?case
    by (auto split: if_splits)
qed

lemma mark_known_cells_nonempty:
  "x \<in> set (knowledge_base (fst (mark_known_cells ai))) \<Longrightarrow>
   cell_positions (objects (fst (mark_known_cells ai)) ! x) \<noteq> {||}"
  unfolding mark_known_cells_def Let_def fst_conv remove_empty_and_duplicate_statements_def
  by (auto dest!: purge_loop_nonempty)

section \<open>The empty statement of the brute force search\<close>

lemma python_set_contains_hashed:
  "python_set_contains h entries r \<Longrightarrow> h ! r \<in> fst ` set entries"
  by (force simp: python_set_contains_def list_ex_iff)

lemma python_set_add_hashed:
  "fst ` set (python_set_add h r entries) = insert (h ! r) (fst ` set entries)"
  using python_set_contains_hashed [of h entries r]
  by (auto simp: python_set_add_def)

lemma python_set_update_hashed:
  "fst ` set (python_set_update h rs entries) = fst ` set entries \<union> (\<lambda>r. h ! r) ` set rs"
  unfolding python_set_update_def
proof (induction rs arbitrary: entries)
  case Nil
  show ?case by simp
next
  case (Cons r rs)
  show ?case
    using Cons [of "python_set_add h r entries"]
    by (simp add: python_set_add_hashed)
qed

lemma brute_force_returns_empty_statement:
  assumes "valid_refs h kb" "kb \<noteq> []"
  shows "new_statement {||} 0
           \<in> set (deref (result_store (brute_force_search g h kb n))
                    (result_inferred (brute_force_search g h kb n)))"
proof -
  have "hd kb \<in> set kb" using assms(2) by simp
  from brute_force_search_member [OF assms(1) this this, of g n]
  show ?thesis by (simp add: difference_statement_def)
qed

lemma brute_force_pass_appends_empty_statement:
  assumes "search_algorithm_method ai = Brute_force" "well_formed ai"
    and "knowledge_base (fst (mark_known_cells ai)) \<noteq> []"
    and "new_statement {||} 0 \<notin> fst ` set inferred_set"
  shows "\<exists>ai' inferred_set' x.
           propagation_pass ai inferred_set = Some (ai', inferred_set', True) \<and>
           length (objects ai) \<le> x \<and>
           x \<in> set (knowledge_base ai') \<and> x < length (objects ai') \<and>
           objects ai' ! x = new_statement {||} 0 \<and>
           new_statement {||} 0 \<in> fst ` set inferred_set' \<and>
           x \<notin> set (knowledge_base (fst (mark_known_cells ai')))"
proof -
  let ?ai3 = "fst (mark_known_cells ai)"
  let ?r = "brute_force_search (stat_generator ?ai3) (objects ?ai3) (knowledge_base ?ai3) 0"
  let ?res = "merge_inferences ?ai3 inferred_set (snd (mark_known_cells ai)) ?r"
  let ?new = "filter (\<lambda>inf. \<not> python_set_contains (result_store ?r) inferred_set inf) (result_inferred ?r)"
  have w3: "well_formed ?ai3" using assms(2) by (rule mark_known_cells_well_formed)
  then have v3: "valid_refs (objects ?ai3) (knowledge_base ?ai3)"
    by (simp add: well_formed_def valid_refs_def list_all_iff)
  have run: "run_algorithm (search_algorithm_method ?ai3) (stat_generator ?ai3) (objects ?ai3)
               (knowledge_base ?ai3) 0 = Some ?r"
    using assms(1) by simp
  have pass: "propagation_pass ai inferred_set = Some ?res"
    using run by (simp add: propagation_pass_def case_prod_beta)
  from brute_force_returns_empty_statement [OF v3 assms(3), of "stat_generator ?ai3" 0]
  obtain x where x: "x \<in> set (result_inferred ?r)" "result_store ?r ! x = new_statement {||} 0"
    by (auto simp: deref_def)
  have fresh: "length (objects ai) \<le> x"
    using run_algorithm_frame [OF run] x(1) assms(1) by auto
  have "\<not> python_set_contains (result_store ?r) inferred_set x"
    using python_set_contains_hashed [of "result_store ?r" inferred_set x] x(2) assms(4) by auto
  then have xn: "x \<in> set ?new" using x(1) by simp
  then have ne: "?new \<noteq> []" by (auto simp: filter_empty_conv)
  have res: "?res = (?ai3\<lparr>objects := result_store ?r, knowledge_base := result_knowledge_base ?r @ ?new,
                           stat_generator := result_stats ?r\<rparr>,
                     python_set_update (result_store ?r) ?new inferred_set, True)"
    using ne by (simp add: merge_inferences_def Let_def)
  let ?ai' = "fst ?res"
  have w': "well_formed ?ai'"
    using propagation_pass_well_formed [OF assms(2), of inferred_set ?ai' "fst (snd ?res)" "snd (snd ?res)"]
      pass by simp
  have xk: "x \<in> set (knowledge_base ?ai')" using xn by (simp add: res)
  then have xl: "x < length (objects ?ai')" using w' by (simp add: well_formed_def)
  have xe: "objects ?ai' ! x = new_statement {||} 0" using x(2) by (simp add: res)
  have "cell_positions (objects (fst (mark_known_cells ?ai')) ! x) |\<subseteq>| cell_positions (objects ?ai' ! x)"
    using xl by (rule mark_known_cells_shrinks)
  then have "cell_positions (objects (fst (mark_known_cells ?ai')) ! x) = {||}"
    using xe by (simp add: new_statement_def)
  then have gone: "x \<notin> set (knowledge_base (fst (mark_known_cells ?ai')))"
    using mark_known_cells_nonempty [of x ?ai'] by blast
  have "result_store ?r ! x \<in> (\<lambda>r. result_store ?r ! r) ` set ?new"
    using xn by (rule imageI)
  then have "new_statement {||} 0 \<in> fst ` set (python_set_update (result_store ?r) ?new inferred_set)"
    unfolding python_set_update_hashed x(2) by simp
  then have rec: "new_statement {||} 0 \<in> fst ` set (fst (snd ?res))" by (simp add: res)
  have "?res = (?ai', fst (snd ?res), True)" by (simp add: res)
  then have "propagation_pass ai inferred_set = Some (?ai', fst (snd ?res), True)"
    using pass by simp
  then show ?thesis using xk xl xe rec gone fresh by blast
qed

section \<open>What the loop leaves\<close>

lemma collect_known_safes_empty:
  "collect_known_safes h rs = {||} \<longleftrightarrow> (\<forall>r \<in> set rs. known_safes (h ! r) = {||})"
proof -
  have "fold (\<lambda>r acc. acc |\<union>| known_safes (h ! r)) rs acc = {||}
      \<longleftrightarrow> acc = {||} \<and> (\<forall>r \<in> set rs. known_safes (h ! r) = {||})" for acc
    by (induction rs arbitrary: acc) auto
  then show ?thesis by (simp add: collect_known_safes_def)
qed

lemma collect_known_mines_empty:
  "collect_known_mines h rs = {||} \<longleftrightarrow> (\<forall>r \<in> set rs. known_mines (h ! r) = {||})"
proof -
  have "fold (\<lambda>r acc. acc |\<union>| known_mines (h ! r)) rs acc = {||}
      \<longleftrightarrow> acc = {||} \<and> (\<forall>r \<in> set rs. known_mines (h ! r) = {||})" for acc
    by (induction rs arbitrary: acc) auto
  then show ?thesis by (simp add: collect_known_mines_def)
qed

lemma sorted_list_of_fset_empty [simp]: "sorted_list_of_fset ({||} :: cell fset) = []"
  by (simp add: sorted_list_of_fset.rep_eq)

lemma mine_count_mark_safe [simp]:
  "mine_count (statement_mark_cell_as_safe c s) = mine_count s"
  by (simp add: statement_mark_cell_as_safe_def)

text \<open>A pass that marks nothing only purges before it searches.\<close>

lemma mark_known_cells_idle:
  assumes "\<not> snd (mark_known_cells ai)"
  shows "fst (mark_known_cells ai) = remove_empty_and_duplicate_statements ai"
  using assms by (simp add: mark_known_cells_def Let_def)

lemma final_pass_settled:
  assumes "well_formed ai" "propagation_pass ai inferred_set = Some (ai', inferred_set', False)"
  shows "settled ai'"
proof -
  let ?ai3 = "fst (mark_known_cells ai)"
  from propagation_pass_SomeD [OF assms(2)] obtain r where
    run: "run_algorithm (search_algorithm_method ?ai3) (stat_generator ?ai3) (objects ?ai3)
               (knowledge_base ?ai3) 0 = Some r"
    and res: "(ai', inferred_set', False) =
       merge_inferences ?ai3 inferred_set (snd (mark_known_cells ai)) r"
    by blast
  let ?new = "filter (\<lambda>inf. \<not> python_set_contains (result_store r) inferred_set inf) (result_inferred r)"
  have nonew: "?new = []" and idle: "\<not> snd (mark_known_cells ai)"
    using res by (auto simp: merge_inferences_def Let_def split: if_splits)
  have ai': "ai' = fst (merge_inferences ?ai3 inferred_set (snd (mark_known_cells ai)) r)"
    using res by (metis fst_conv)
  have f: "result_knowledge_base r = knowledge_base ?ai3"
    "take (length (objects ?ai3)) (result_store r) = objects ?ai3"
    using run_algorithm_frame [OF run] by simp_all
  have kb': "knowledge_base ai' = knowledge_base ?ai3"
    unfolding ai' merge_inferences_knowledge_base using nonew f(1) by simp
  have ob': "objects ai' = result_store r" by (simp add: ai')
  have eq3: "?ai3 = remove_empty_and_duplicate_statements ai"
    using idle by (rule mark_known_cells_idle)
  have none: "\<forall>x \<in> set (knowledge_base ai).
      known_safes (objects ai ! x) = {||} \<and> known_mines (objects ai ! x) = {||}"
    using idle by (simp add: mark_known_cells_def Let_def collect_known_safes_empty
        collect_known_mines_empty)
  show ?thesis
    unfolding settled_def
  proof
    fix x assume "x \<in> set (knowledge_base ai')"
    then have x3: "x \<in> set (knowledge_base ?ai3)" by (simp add: kb')
    then have xk: "x \<in> set (knowledge_base ai)"
      using remove_empty_and_duplicate_statements_subset [of ai] eq3 by auto
    then have xl: "x < length (objects ai)" using assms(1) by (simp add: well_formed_def)
    have "objects ai' ! x = objects ?ai3 ! x"
      using f(2) xl by (metis ob' mark_known_cells_fields(4) nth_take)
    also have "\<dots> = objects ai ! x" by (simp add: eq3)
    finally have same: "objects ai' ! x = objects ai ! x" .
    have "cell_positions (objects ?ai3 ! x) \<noteq> {||}"
      using x3 by (rule mark_known_cells_nonempty)
    then show "cell_positions (objects ai' ! x) \<noteq> {||} \<and>
        known_safes (objects ai' ! x) = {||} \<and> known_mines (objects ai' ! x) = {||}"
      using none xk same by (simp add: eq3)
  qed
qed

lemma add_knowledge_settled:
  assumes "well_formed ai" "add_knowledge c n ai = Some ai'"
  shows "settled ai'"
proof -
  let ?ai1 = "add_statement c n ai"
  let ?set = "python_set_update (objects ?ai1) (knowledge_base ?ai1) []"
  from assms(2) obtain res where
    loop: "propagation_loop ?ai1 ?set 0 = Some res"
    and ai': "ai' = (fst res)\<lparr>stat_generator := update_iterations (snd (snd res)) (stat_generator (fst res))\<rparr>"
    by (auto simp: add_knowledge_def Let_def split: prod.splits)
  have "\<exists>ai0 inferred_set0. well_formed ai0 \<and>
           propagation_pass ai0 inferred_set0 = Some (fst res, fst (snd res), False)"
    by (rule propagation_loop_invariant [where I = "\<lambda>ai s. well_formed ai", OF loop])
       (auto intro: add_statement_well_formed assms(1) propagation_pass_well_formed)
  then have "settled (fst res)" using final_pass_settled by blast
  then show ?thesis by (simp add: ai' settled_def)
qed

lemma reachable_settled: "reachable ai \<Longrightarrow> settled ai"
proof (induction rule: reachable.induct)
  case (constructed a_grid_size search_algorithm_name safe_cell_strategy)
  show ?case by (simp add: new_ai_def settled_def split: prod.splits)
next
  case (ingested ai c surrounding_mines_count ai')
  then show ?case using add_knowledge_settled reachable_well_formed by blast
next
  case (moved ai drawn)
  then show ?case by (simp add: settled_def)
qed

text \<open>When an ingestion starts from a settled knowledge base, no statement of the
  knowledge base the inferred set is built from is the empty statement with count 0.\<close>

lemma add_statement_no_empty_statement:
  assumes "well_formed ai" "settled ai"
  shows "new_statement {||} 0
           \<notin> fst ` set (python_set_update (objects (add_statement c n ai))
                          (knowledge_base (add_statement c n ai)) [])"
proof -
  let ?ai1 = "ai\<lparr>stat_generator := reset_current_stats (stat_generator ai),
                   moves_made := finsert c (moves_made ai)\<rparr>"
  let ?ai2 = "mark_cell_as_safe c ?ai1"
  let ?acc = "fold remove_known_mine (sorted_list_of_fset (identified_mines ?ai2))
               (surrounding_cells_of (grid_size ?ai2) c |-| identified_safe_cells ?ai2, n)"
  let ?new = "new_statement (fst ?acc) (snd ?acc)"
  have old: "objects ?ai2 ! x \<noteq> new_statement {||} 0" if "x \<in> set (knowledge_base ai)" for x
  proof -
    have xl: "x < length (objects ai)" using assms(1) that by (simp add: well_formed_def)
    have "objects ?ai2 ! x = statement_mark_cell_as_safe c (objects ai ! x)"
      using mark_statements_nth [of "statement_mark_cell_as_safe c" x "objects ai" "knowledge_base ai"]
        that xl assms(1) by (auto simp: well_formed_def statement_mark_cell_as_safe_idem)
    moreover have "mine_count (objects ai ! x) \<noteq> 0"
      using assms(2) that by (auto simp: settled_def known_safes_def split: if_splits)
    ultimately have "mine_count (objects ?ai2 ! x) \<noteq> 0" by simp
    then show ?thesis by (auto simp: new_statement_def)
  qed
  have "\<forall>x \<in> set (knowledge_base (add_statement c n ai)).
          objects (add_statement c n ai) ! x \<noteq> new_statement {||} 0"
  proof (cases "fst ?acc = {||}")
    case True
    then have "add_statement c n ai = ?ai2"
      by (simp add: add_statement_def Let_def case_prod_beta)
    then show ?thesis using old by simp
  next
    case False
    let ?ai3 = "?ai2\<lparr>objects := objects ?ai2 @ [?new],
                      knowledge_base := knowledge_base ?ai2 @ [length (objects ?ai2)]\<rparr>"
    have eq: "add_statement c n ai = ?ai3"
      using False by (simp add: add_statement_def Let_def case_prod_beta)
    have "x < length (objects ?ai2)" if "x \<in> set (knowledge_base ai)" for x
      using assms(1) that by (simp add: well_formed_def)
    moreover have "?new \<noteq> new_statement {||} 0" using False by (simp add: new_statement_def)
    ultimately show ?thesis
      unfolding eq using old by (auto simp: nth_append)
  qed
  then show ?thesis unfolding python_set_update_hashed by auto
qed

lemma mark_cell_as_safe_keeps_empty:
  assumes "well_formed ai" "x < length (objects ai)" "cell_positions (objects ai ! x) = {||}"
  shows "objects (mark_cell_as_safe c ai) ! x = objects ai ! x"
proof -
  have v: "\<forall>y \<in> set (knowledge_base ai). y < length (objects ai)"
    using assms(1) by (simp add: well_formed_def)
  show ?thesis
    using mark_statements_nth [where r = x and f = "statement_mark_cell_as_safe c",
            OF statement_mark_cell_as_safe_idem assms(2) v] assms(3)
    by (simp add: statement_mark_cell_as_safe_def)
qed

lemma mark_cell_as_mine_keeps_empty:
  assumes "well_formed ai" "x < length (objects ai)" "cell_positions (objects ai ! x) = {||}"
  shows "objects (mark_cell_as_mine c ai) ! x = objects ai ! x"
proof -
  have v: "\<forall>y \<in> set (knowledge_base ai). y < length (objects ai)"
    using assms(1) by (simp add: well_formed_def)
  show ?thesis
    using mark_statements_nth [where r = x and f = "statement_mark_cell_as_mine c",
            OF statement_mark_cell_as_mine_idem assms(2) v] assms(3)
    by (simp add: statement_mark_cell_as_mine_def)
qed

lemma fold_mark_cell_as_safe_keeps_empty:
  "well_formed ai \<Longrightarrow> x < length (objects ai) \<Longrightarrow> cell_positions (objects ai ! x) = {||} \<Longrightarrow>
   objects (fold mark_cell_as_safe cs ai) ! x = objects ai ! x"
proof (induction cs arbitrary: ai)
  case Nil
  then show ?case by simp
next
  case (Cons c cs)
  have k: "objects (mark_cell_as_safe c ai) ! x = objects ai ! x"
    using Cons.prems by (rule mark_cell_as_safe_keeps_empty)
  have "objects (fold mark_cell_as_safe cs (mark_cell_as_safe c ai)) ! x
          = objects (mark_cell_as_safe c ai) ! x"
    using Cons.prems k by (intro Cons.IH mark_cell_as_safe_well_formed) simp_all
  then show ?case using k by simp
qed

lemma fold_mark_cell_as_mine_keeps_empty:
  "well_formed ai \<Longrightarrow> x < length (objects ai) \<Longrightarrow> cell_positions (objects ai ! x) = {||} \<Longrightarrow>
   objects (fold mark_cell_as_mine cs ai) ! x = objects ai ! x"
proof (induction cs arbitrary: ai)
  case Nil
  then show ?case by simp
next
  case (Cons c cs)
  have k: "objects (mark_cell_as_mine c ai) ! x = objects ai ! x"
    using Cons.prems by (rule mark_cell_as_mine_keeps_empty)
  have "objects (fold mark_cell_as_mine cs (mark_cell_as_mine c ai)) ! x
          = objects (mark_cell_as_mine c ai) ! x"
    using Cons.prems k by (intro Cons.IH mark_cell_as_mine_well_formed) simp_all
  then show ?case using k by simp
qed

lemma mark_known_cells_keeps_empty:
  assumes "well_formed ai" "x < length (objects ai)" "cell_positions (objects ai ! x) = {||}"
  shows "objects (fst (mark_known_cells ai)) ! x = objects ai ! x"
proof -
  let ?safes = "sorted_list_of_fset (collect_known_safes (objects ai) (knowledge_base ai))"
  let ?mines = "sorted_list_of_fset (collect_known_mines (objects ai) (knowledge_base ai))"
  let ?ai1 = "fold mark_cell_as_safe ?safes ai"
  have 1: "objects ?ai1 ! x = objects ai ! x"
    using assms by (rule fold_mark_cell_as_safe_keeps_empty)
  have "objects (fold mark_cell_as_mine ?mines ?ai1) ! x = objects ?ai1 ! x"
    using assms 1 by (intro fold_mark_cell_as_mine_keeps_empty fold_mark_cell_as_safe_well_formed) simp_all
  then show ?thesis using 1 by (simp add: mark_known_cells_def Let_def)
qed

lemma propagation_pass_keeps_empty:
  assumes "well_formed ai" "x < length (objects ai)" "cell_positions (objects ai ! x) = {||}"
    and "propagation_pass ai inferred_set = Some (ai', inferred_set', changed)"
  shows "x < length (objects ai') \<and> objects ai' ! x = objects ai ! x"
proof -
  let ?ai3 = "fst (mark_known_cells ai)"
  from propagation_pass_SomeD [OF assms(4)] obtain r where
    r: "run_algorithm (search_algorithm_method ?ai3) (stat_generator ?ai3) (objects ?ai3)
               (knowledge_base ?ai3) 0 = Some r"
    and "(ai', inferred_set', changed) = merge_inferences ?ai3 inferred_set (snd (mark_known_cells ai)) r"
    by blast
  then have "ai' = fst (merge_inferences ?ai3 inferred_set (snd (mark_known_cells ai)) r)"
    by (metis fst_conv)
  then have o: "objects ai' = result_store r" by simp
  have t: "take (length (objects ?ai3)) (result_store r) = objects ?ai3"
    using run_algorithm_frame [OF r] by simp
  have l: "x < length (objects ?ai3)" using assms(2) by simp
  have "result_store r ! x = objects ?ai3 ! x" "x < length (result_store r)"
    using t l by (metis nth_take, metis length_take min_less_iff_conj)
  then show ?thesis
    unfolding o using mark_known_cells_keeps_empty [OF assms(1,2,3)] by simp
qed

lemma propagation_pass_on_empty_store:
  assumes "knowledge_base (fst (mark_known_cells ai)) = []"
    and "search_algorithm_method ai = Brute_force"
    and "propagation_pass ai inferred_set = Some (ai', inferred_set', changed)"
  shows "knowledge_base ai' = [] \<and> length (objects ai') = length (objects ai)"
  using assms
  by (auto simp: propagation_pass_def case_prod_beta brute_force_search_def finish_search_def
      merge_inferences_def)

lemma mark_known_cells_on_empty_store:
  "knowledge_base ai = [] \<Longrightarrow> knowledge_base (fst (mark_known_cells ai)) = []"
  using remove_empty_and_duplicate_statements_subset
    [of "fold mark_cell_as_mine
           (sorted_list_of_fset (collect_known_mines (objects ai) (knowledge_base ai)))
           (fold mark_cell_as_safe
              (sorted_list_of_fset (collect_known_safes (objects ai) (knowledge_base ai))) ai)"]
  by (simp add: mark_known_cells_def Let_def)

lemma propagation_pass_method:
  assumes "propagation_pass ai inferred_set = Some (ai', inferred_set', changed)"
  shows "search_algorithm_method ai' = search_algorithm_method ai"
proof -
  from propagation_pass_SomeD [OF assms] obtain r where
    "(ai', inferred_set', changed)
       = merge_inferences (fst (mark_known_cells ai)) inferred_set (snd (mark_known_cells ai)) r"
    by blast
  then have "ai' = fst (merge_inferences (fst (mark_known_cells ai)) inferred_set
                          (snd (mark_known_cells ai)) r)"
    by (metis fst_conv)
  then show ?thesis by simp
qed

lemma add_statement_method [simp]:
  "search_algorithm_method (add_statement c n ai) = search_algorithm_method ai"
  by (simp add: add_statement_def Let_def case_prod_beta)

lemma ingestion_on_empty_store:
  assumes "search_algorithm_method ai = Brute_force"
    and "knowledge_base (fst (mark_known_cells ai)) = []"
    and "propagation_loop ai inferred_set n = Some res"
  shows "knowledge_base (fst res) = [] \<and> length (objects (fst res)) = length (objects ai)"
proof -
  let ?I = "\<lambda>a (s :: python_set). knowledge_base (fst (mark_known_cells a)) = [] \<and>
              search_algorithm_method a = Brute_force \<and> length (objects a) = length (objects ai)"
  have "\<exists>ai0 inferred_set0. ?I ai0 inferred_set0 \<and>
           propagation_pass ai0 inferred_set0 = Some (fst res, fst (snd res), False)"
  proof (rule propagation_loop_invariant [where I = ?I, OF assms(3)])
    show "?I ai inferred_set" using assms(1,2) by simp
  next
    fix a s a' s' changed
    assume i: "?I a s" and p: "propagation_pass a s = Some (a', s', changed)"
    have "knowledge_base a' = [] \<and> length (objects a') = length (objects a)"
      using propagation_pass_on_empty_store [OF _ _ p] i by blast
    then show "?I a' s'"
      using mark_known_cells_on_empty_store [of a'] propagation_pass_method [OF p] i by simp
  qed
  then obtain ai0 s0 where i: "?I ai0 s0"
    and p: "propagation_pass ai0 s0 = Some (fst res, fst (snd res), False)" by blast
  show ?thesis
    using propagation_pass_on_empty_store [OF _ _ p] i by simp
qed

lemma ingestion_keeps_empty_statement:
  assumes "well_formed ai" "x < length (objects ai)" "objects ai ! x = new_statement {||} 0"
    and "propagation_loop ai inferred_set n = Some res"
  shows "x < length (objects (fst res)) \<and> objects (fst res) ! x = new_statement {||} 0 \<and>
         x \<notin> set (knowledge_base (fst res))"
proof -
  let ?I = "\<lambda>a (s :: python_set). well_formed a \<and> x < length (objects a) \<and>
              objects a ! x = new_statement {||} 0"
  have step: "?I a' s'" if "?I a s" "propagation_pass a s = Some (a', s', changed)"
    for a s a' s' changed
    using propagation_pass_keeps_empty [OF _ _ _ that(2), of x]
      propagation_pass_well_formed [OF _ that(2)] that(1)
    by (simp add: new_statement_def)
  have "\<exists>ai0 inferred_set0. ?I ai0 inferred_set0 \<and>
           propagation_pass ai0 inferred_set0 = Some (fst res, fst (snd res), False)"
    by (rule propagation_loop_invariant [where I = ?I, OF assms(4)])
       (use assms(1,2,3) step in blast)+
  then obtain ai0 s0 where i: "?I ai0 s0"
    and p: "propagation_pass ai0 s0 = Some (fst res, fst (snd res), False)" by blast
  have k: "?I (fst res) (fst (snd res))" using step [OF i p] .
  have "settled (fst res)" using final_pass_settled [OF _ p] i by blast
  then have "x \<notin> set (knowledge_base (fst res))"
    using k by (auto simp: settled_def new_statement_def)
  then show ?thesis using k by blast
qed



section \<open>An ingestion that does not end\<close>

lemma drifting_cells:
  "fcard outer_cells = 7" "fcard corner_cells = 2" "fcard far_cells = 5"
  "outer_cells |-| corner_cells = far_cells" "outer_cells |-| far_cells = corner_cells"
  "corner_cells |\<subseteq>| outer_cells" "far_cells |\<subseteq>| outer_cells"
  "\<not> corner_cells |\<subseteq>| far_cells" "\<not> far_cells |\<subseteq>| corner_cells"
  "\<not> outer_cells |\<subseteq>| corner_cells" "\<not> outer_cells |\<subseteq>| far_cells"
  "outer_cells \<noteq> {||}" "corner_cells \<noteq> {||}" "far_cells \<noteq> {||}"
  "outer_cells \<noteq> corner_cells" "outer_cells \<noteq> far_cells" "corner_cells \<noteq> far_cells"
  by code_simp+

lemma drifting_counts:
  fixes n m :: int
  shows "n mod 10 = 9 \<Longrightarrow> n \<noteq> 0 \<and> n \<noteq> 7"
    and "n mod 10 = 3 \<Longrightarrow> n \<noteq> 0 \<and> n \<noteq> 2"
    and "n mod 10 = 6 \<Longrightarrow> n \<noteq> 0 \<and> n \<noteq> 5"
  by auto

lemma drifting_differences:
  fixes n m :: int
  shows "n mod 10 = 9 \<Longrightarrow> m mod 10 = 9 \<Longrightarrow> (m - n) mod 10 = 0"
    and "n mod 10 = 3 \<Longrightarrow> m mod 10 = 3 \<Longrightarrow> (m - n) mod 10 = 0"
    and "n mod 10 = 6 \<Longrightarrow> m mod 10 = 6 \<Longrightarrow> (m - n) mod 10 = 0"
    and "n mod 10 = 3 \<Longrightarrow> m mod 10 = 9 \<Longrightarrow> (m - n) mod 10 = 6"
    and "n mod 10 = 6 \<Longrightarrow> m mod 10 = 9 \<Longrightarrow> (m - n) mod 10 = 3"
    and "n mod 10 = 0 \<Longrightarrow> (m - n) mod 10 = m mod 10"
  by ((subst mod_diff_eq [symmetric], simp)+)

lemma drifting_unknown:
  assumes "drifting s"
  shows "known_safes s = {||} \<and> known_mines s = {||}"
proof -
  consider (o) "cell_positions s = outer_cells" "mine_count s mod 10 = 9"
    | (c) "cell_positions s = corner_cells" "mine_count s mod 10 = 3"
    | (f) "cell_positions s = far_cells" "mine_count s mod 10 = 6"
    | (e) "cell_positions s = {||}"
    using assms unfolding drifting_def by blast
  then show ?thesis
  proof cases
    case o
    then show ?thesis
      using drifting_counts(1) [of "mine_count s"]
      by (simp add: known_safes_def known_mines_def drifting_cells)
  next
    case c
    then show ?thesis
      using drifting_counts(2) [of "mine_count s"]
      by (simp add: known_safes_def known_mines_def drifting_cells)
  next
    case f
    then show ?thesis
      using drifting_counts(3) [of "mine_count s"]
      by (simp add: known_safes_def known_mines_def drifting_cells)
  next
    case e
    then show ?thesis by (simp add: known_safes_def known_mines_def)
  qed
qed

lemma closed_under_difference_drifting: "closed_under_difference drifting"
  unfolding closed_under_difference_def
proof (intro allI impI)
  fix a b assume a: "drifting a" and b: "drifting b"
    and sub: "cell_positions a |\<subseteq>| cell_positions b"
  show "drifting (difference_statement a b)"
    using a b sub unfolding drifting_def difference_statement_def new_statement_def
    by (elim disjE conjE; simp add: drifting_cells drifting_differences)
qed

lemma purged_values:
  "set (deref (objects ai) (knowledge_base (remove_empty_and_duplicate_statements ai)))
     = {v \<in> set (deref (objects ai) (knowledge_base ai)). cell_positions v \<noteq> {||}}"
proof -
  have "knowledge_base (remove_empty_and_duplicate_statements ai)
      = cleaned_knowledge_base (purge_loop (objects ai) (knowledge_base ai)
          \<lparr>original_set = set (deref (objects ai) (knowledge_base ai)),
           cleaned_knowledge_base = [], duplicate_count = 0\<rparr>)"
    by (simp add: remove_empty_and_duplicate_statements_def Let_def)
  then show ?thesis
    using remove_empty_and_duplicate_statements_result [of ai]
    by (simp add: purge_result_def deref_def)
qed

lemma statement_of_cells:
  "cell_positions s = cells \<Longrightarrow> s = new_statement cells (mine_count s)"
  by (simp add: new_statement_def)

lemma endless_pass:
  assumes "endless ai inferred_set"
  shows "\<exists>ai' inferred_set'.
           propagation_pass ai inferred_set = Some (ai', inferred_set', True) \<and>
           endless ai' inferred_set'"
proof -
  define h where "h = objects ai"
  define kb where "kb = knowledge_base ai"
  define ai3 where "ai3 = remove_empty_and_duplicate_statements ai"
  define kb3 where "kb3 = knowledge_base ai3"
  define r where "r = brute_force_search (stat_generator ai3) h kb3 0"
  define new where
    "new = filter (\<lambda>inf. \<not> python_set_contains (result_store r) inferred_set inf) (result_inferred r)"
  from assms have m: "search_algorithm_method ai = Brute_force"
    and dr: "\<forall>x \<in> set kb. x < length h \<and> drifting (h ! x)"
    and b1: "new_statement outer_cells 9 \<in> set (deref h kb)"
    and b2: "new_statement outer_cells 19 \<in> set (deref h kb)"
    and co: "\<exists>x \<in> set kb. cell_positions (h ! x) = corner_cells"
    and en: "\<forall>k \<in> fst ` set inferred_set. cell_positions k = {||} \<or> k \<in> set (deref h kb)"
    unfolding endless_def h_def kb_def by (auto simp: list_all_iff list_ex_iff)
  have idle: "\<not> snd (mark_known_cells ai)"
    using dr drifting_unknown
    by (simp add: mark_known_cells_def Let_def collect_known_safes_empty
        collect_known_mines_empty h_def kb_def)
  then have eq3: "fst (mark_known_cells ai) = ai3"
    unfolding ai3_def by (rule mark_known_cells_idle)
  have h3: "objects ai3 = h" by (simp add: ai3_def h_def)
  have sub3: "set kb3 \<subseteq> set kb"
    unfolding kb3_def ai3_def kb_def by (rule remove_empty_and_duplicate_statements_subset)
  have vals3: "set (deref h kb3) = {v \<in> set (deref h kb). cell_positions v \<noteq> {||}}"
    unfolding kb3_def ai3_def h_def kb_def by (rule purged_values)
  have dr3: "\<forall>x \<in> set kb3. x < length h \<and> drifting (h ! x)" using dr sub3 by auto
  then have v3: "valid_refs h kb3" by (simp add: valid_refs_def list_all_iff)
  have run: "run_algorithm Brute_force (stat_generator ai3) h kb3 0 = Some r"
    by (simp add: r_def)
  have frame: "result_knowledge_base r = kb3" "take (length h) (result_store r) = h"
    using run_algorithm_frame [OF run] by simp_all
  have old: "result_store r ! x = h ! x" if "x < length h" for x
    using frame(2) that by (metis nth_take)
  have len: "length h \<le> length (result_store r)"
  proof -
    have "length (take (length h) (result_store r)) = length h" by (simp only: frame(2))
    then show ?thesis by simp
  qed
  have sound: "\<forall>x \<in> set (result_inferred r). x < length (result_store r) \<and> drifting (result_store r ! x)"
    using run_algorithm_all [OF closed_under_difference_drifting run dr3] .
  have complete: "difference_statement (h ! a) (h ! b) \<in> set (deref (result_store r) (result_inferred r))"
    if "a \<in> set kb3" "b \<in> set kb3" "cell_positions (h ! a) |\<subseteq>| cell_positions (h ! b)" for a b
    unfolding r_def using brute_force_search_member [OF v3 that] .
  have ne: "new \<noteq> []"
  proof
    assume "new = []"
    then have all: "\<forall>x \<in> set (result_inferred r). python_set_contains (result_store r) inferred_set x"
      by (auto simp: new_def filter_empty_conv)
    have star: "v \<in> set (deref h kb3)"
      if "v \<in> set (deref (result_store r) (result_inferred r))" "cell_positions v \<noteq> {||}" for v
    proof -
      from that(1) obtain x where "x \<in> set (result_inferred r)" "v = result_store r ! x"
        by (auto simp: deref_def)
      then have "v \<in> fst ` set inferred_set"
        using all python_set_contains_hashed by blast
      then show ?thesis using en that(2) vals3 by auto
    qed
    define Sa where "Sa = {n. new_statement corner_cells n \<in> set (deref h kb3)}"
    have "Sa \<subseteq> mine_count ` set (deref h kb3)"
      by (force simp: Sa_def new_statement_def)
    then have fin: "finite Sa" by (rule finite_subset) simp
    from co obtain x0 where x0: "x0 \<in> set kb" "cell_positions (h ! x0) = corner_cells" by blast
    then have "h ! x0 \<in> set (deref h kb3)"
      unfolding vals3 by (auto simp: deref_def drifting_cells)
    then have "mine_count (h ! x0) \<in> Sa"
      using statement_of_cells [OF x0(2)] by (simp add: Sa_def)
    then have "Sa \<noteq> {}" by blast
    then have "Max Sa \<in> Sa" using fin by (rule Max_in [rotated])
    then obtain ra where ra: "ra \<in> set kb3" "h ! ra = new_statement corner_cells (Max Sa)"
      by (auto simp: Sa_def deref_def)
    have "new_statement outer_cells 9 \<in> set (deref h kb3)"
      unfolding vals3 using b1 by (simp add: new_statement_def drifting_cells)
    then obtain rb1 where rb1: "rb1 \<in> set kb3" "h ! rb1 = new_statement outer_cells 9"
      by (auto simp: deref_def)
    have "new_statement outer_cells 19 \<in> set (deref h kb3)"
      unfolding vals3 using b2 by (simp add: new_statement_def drifting_cells)
    then obtain rb2 where rb2: "rb2 \<in> set kb3" "h ! rb2 = new_statement outer_cells 19"
      by (auto simp: deref_def)
    have "difference_statement (h ! ra) (h ! rb1) = new_statement far_cells (9 - Max Sa)"
      by (simp add: ra rb1 difference_statement_def new_statement_def drifting_cells)
    moreover have "cell_positions (h ! ra) |\<subseteq>| cell_positions (h ! rb1)"
      by (simp add: ra rb1 new_statement_def drifting_cells)
    ultimately have "new_statement far_cells (9 - Max Sa) \<in> set (deref (result_store r) (result_inferred r))"
      using complete [OF ra(1) rb1(1)] by simp
    then have "new_statement far_cells (9 - Max Sa) \<in> set (deref h kb3)"
      by (rule star) (simp add: new_statement_def drifting_cells)
    then obtain rf where rf: "rf \<in> set kb3" "h ! rf = new_statement far_cells (9 - Max Sa)"
      by (auto simp: deref_def)
    have "difference_statement (h ! rf) (h ! rb2) = new_statement corner_cells (Max Sa + 10)"
      by (simp add: rf rb2 difference_statement_def new_statement_def drifting_cells)
    moreover have "cell_positions (h ! rf) |\<subseteq>| cell_positions (h ! rb2)"
      by (simp add: rf rb2 new_statement_def drifting_cells)
    ultimately have "new_statement corner_cells (Max Sa + 10)
        \<in> set (deref (result_store r) (result_inferred r))"
      using complete [OF rf(1) rb2(1)] by simp
    then have "new_statement corner_cells (Max Sa + 10) \<in> set (deref h kb3)"
      by (rule star) (simp add: new_statement_def drifting_cells)
    then have "Max Sa + 10 \<in> Sa" by (simp add: Sa_def)
    then have "Max Sa + 10 \<le> Max Sa" using fin by (rule Max_ge [rotated])
    then show False by simp
  qed
  define ai' where "ai' = ai3\<lparr>objects := result_store r, knowledge_base := kb3 @ new,
                           stat_generator := result_stats r\<rparr>"
  define inferred_set' where "inferred_set' = python_set_update (result_store r) new inferred_set"
  have "merge_inferences ai3 inferred_set False r = (ai', inferred_set', True)"
    using ne frame(1)
    by (simp add: merge_inferences_def Let_def new_def [symmetric] ai'_def inferred_set'_def)
  moreover have "snd (mark_known_cells ai) = False" using idle by simp
  ultimately have pass: "propagation_pass ai inferred_set = Some (ai', inferred_set', True)"
    using run eq3 m h3
    by (simp add: propagation_pass_def case_prod_beta kb3_def ai3_def)
  have newsub: "set new \<subseteq> set (result_inferred r)" by (auto simp: new_def)
  have dr': "\<forall>x \<in> set (kb3 @ new). x < length (result_store r) \<and> drifting (result_store r ! x)"
    using dr3 old len sound newsub by auto
  have keep: "deref (result_store r) kb3 = deref h kb3"
    using dr3 old by (simp add: deref_def)
  have vals': "set (deref h kb3) \<subseteq> set (deref (result_store r) (kb3 @ new))"
    using keep by (simp add: deref_def)
  have b1': "new_statement outer_cells 9 \<in> set (deref (result_store r) (kb3 @ new))"
    using vals' vals3 b1 by (auto simp: new_statement_def drifting_cells)
  have b2': "new_statement outer_cells 19 \<in> set (deref (result_store r) (kb3 @ new))"
    using vals' vals3 b2 by (auto simp: new_statement_def drifting_cells)
  from co obtain x0 where x0: "x0 \<in> set kb" "cell_positions (h ! x0) = corner_cells" by blast
  then have "h ! x0 \<in> set (deref h kb3)"
    unfolding vals3 by (auto simp: deref_def drifting_cells)
  then obtain x1 where "x1 \<in> set kb3" "h ! x1 = h ! x0" by (auto simp: deref_def)
  then have co': "\<exists>x \<in> set (kb3 @ new). cell_positions (result_store r ! x) = corner_cells"
    using x0(2) old dr3 by force
  have en': "\<forall>k \<in> fst ` set inferred_set'.
      cell_positions k = {||} \<or> k \<in> set (deref (result_store r) (kb3 @ new))"
  proof
    fix k assume "k \<in> fst ` set inferred_set'"
    then consider "k \<in> fst ` set inferred_set" | "k \<in> (\<lambda>x. result_store r ! x) ` set new"
      unfolding inferred_set'_def python_set_update_hashed by blast
    then show "cell_positions k = {||} \<or> k \<in> set (deref (result_store r) (kb3 @ new))"
    proof cases
      case 1
      then have "cell_positions k = {||} \<or> k \<in> set (deref h kb3)"
        using en vals3 by auto
      then show ?thesis using vals' by auto
    next
      case 2
      then show ?thesis by (auto simp: deref_def)
    qed
  qed
  have "endless ai' inferred_set'"
    unfolding endless_def
    using m dr' b1' b2' co' en'
    by (auto simp: ai'_def ai3_def list_all_iff list_ex_iff)
  then show ?thesis using pass by blast
qed

lemma endless_loop:
  assumes "endless ai inferred_set"
  shows "propagation_loop ai inferred_set n = None"
proof (rule ccontr)
  assume "propagation_loop ai inferred_set n \<noteq> None"
  then obtain res where loop: "propagation_loop ai inferred_set n = Some res" by blast
  have "\<exists>ai0 inferred_set0. endless ai0 inferred_set0 \<and>
           propagation_pass ai0 inferred_set0 = Some (fst res, fst (snd res), False)"
  proof (rule propagation_loop_invariant [where I = endless, OF loop assms])
    fix ai inferred_set ai' inferred_set' changed
    assume "endless ai inferred_set"
      and "propagation_pass ai inferred_set = Some (ai', inferred_set', changed)"
    then show "endless ai' inferred_set'" using endless_pass [of ai inferred_set] by auto
  qed
  then show False using endless_pass by fastforce
qed


section \<open>Statements that are true on a board\<close>

lemma finter_minus_safe: "c |\<notin>| w \<Longrightarrow> (S |-| {|c|}) |\<inter>| w = S |\<inter>| w"
  by auto

lemma fcard_finter_minus_mine:
  assumes "c |\<in>| w" "c |\<in>| S"
  shows "int (fcard ((S |-| {|c|}) |\<inter>| w)) = int (fcard (S |\<inter>| w)) - 1"
proof -
  have "(S |-| {|c|}) |\<inter>| w = (S |\<inter>| w) |-| {|c|}" by auto
  moreover have "c |\<in>| S |\<inter>| w" using assms by simp
  ultimately show ?thesis
    using fcard_Suc_fminus1 [of c "S |\<inter>| w"] by simp
qed

lemma true_on_mark_safe:
  "c |\<notin>| w \<Longrightarrow> true_on w s \<Longrightarrow> true_on w (statement_mark_cell_as_safe c s)"
  by (simp add: true_on_def statement_mark_cell_as_safe_def finter_minus_safe)

lemma true_on_mark_mine:
  "c |\<in>| w \<Longrightarrow> true_on w s \<Longrightarrow> true_on w (statement_mark_cell_as_mine c s)"
  by (simp add: true_on_def statement_mark_cell_as_mine_def fcard_finter_minus_mine)

lemma fcard_finter_fminus:
  assumes "A |\<subseteq>| B"
  shows "int (fcard ((B |-| A) |\<inter>| w)) = int (fcard (B |\<inter>| w)) - int (fcard (A |\<inter>| w))"
proof -
  have "(B |\<inter>| w) = ((B |-| A) |\<inter>| w) |\<union>| (A |\<inter>| w)" using assms by auto
  moreover have "((B |-| A) |\<inter>| w) |\<inter>| (A |\<inter>| w) = {||}" by auto
  ultimately have "fcard (B |\<inter>| w) = fcard ((B |-| A) |\<inter>| w) + fcard (A |\<inter>| w)"
    by (metis fcard_funion_disjoint)
  then show ?thesis by simp
qed

lemma closed_under_difference_true_on: "closed_under_difference (true_on w)"
  by (simp add: closed_under_difference_def true_on_def difference_statement_def new_statement_def
      fcard_finter_fminus)

lemma known_safes_true_on:
  assumes "true_on w s" "c |\<in>| known_safes s"
  shows "c |\<notin>| w"
proof -
  have "cell_positions s |\<inter>| w = {||}" "c |\<in>| cell_positions s"
    using assms by (auto simp: true_on_def known_safes_def split: if_splits)
  then show ?thesis by auto
qed

lemma known_mines_true_on:
  assumes "true_on w s" "c |\<in>| known_mines s"
  shows "c |\<in>| w"
proof -
  have "fcard (cell_positions s) = fcard (cell_positions s |\<inter>| w)" "c |\<in>| cell_positions s"
    using assms by (auto simp: true_on_def known_mines_def split: if_splits)
  then have "cell_positions s |\<inter>| w = cell_positions s"
    by (intro fcard_seteq) auto
  then show ?thesis using \<open>c |\<in>| cell_positions s\<close> by auto
qed

lemma collect_known_safes_member:
  "c |\<in>| collect_known_safes h rs \<longleftrightarrow> (\<exists>r \<in> set rs. c |\<in>| known_safes (h ! r))"
proof -
  have "c |\<in>| fold (\<lambda>r acc. acc |\<union>| known_safes (h ! r)) rs acc
          \<longleftrightarrow> c |\<in>| acc \<or> (\<exists>r \<in> set rs. c |\<in>| known_safes (h ! r))" for acc
    by (induction rs arbitrary: acc) auto
  then show ?thesis by (simp add: collect_known_safes_def)
qed

lemma collect_known_mines_member:
  "c |\<in>| collect_known_mines h rs \<longleftrightarrow> (\<exists>r \<in> set rs. c |\<in>| known_mines (h ! r))"
proof -
  have "c |\<in>| fold (\<lambda>r acc. acc |\<union>| known_mines (h ! r)) rs acc
          \<longleftrightarrow> c |\<in>| acc \<or> (\<exists>r \<in> set rs. c |\<in>| known_mines (h ! r))" for acc
    by (induction rs arbitrary: acc) auto
  then show ?thesis by (simp add: collect_known_mines_def)
qed

lemma mark_cell_as_safe_sound:
  assumes "well_formed ai" "sound w ai" "c |\<notin>| w"
  shows "sound w (mark_cell_as_safe c ai)"
proof -
  have v: "\<forall>x \<in> set (knowledge_base ai). x < length (objects ai)"
    using assms(1) by (simp add: well_formed_def)
  have "objects (mark_cell_as_safe c ai) ! r = statement_mark_cell_as_safe c (objects ai ! r)"
    if "r \<in> set (knowledge_base ai)" for r
    using mark_statements_nth [where r = r and f = "statement_mark_cell_as_safe c",
            OF statement_mark_cell_as_safe_idem _ v] v that by simp
  then show ?thesis
    using assms(2,3) by (auto simp: sound_def true_on_mark_safe)
qed

lemma mark_cell_as_mine_sound:
  assumes "well_formed ai" "sound w ai" "c |\<in>| w"
  shows "sound w (mark_cell_as_mine c ai)"
proof -
  have v: "\<forall>x \<in> set (knowledge_base ai). x < length (objects ai)"
    using assms(1) by (simp add: well_formed_def)
  have "objects (mark_cell_as_mine c ai) ! r = statement_mark_cell_as_mine c (objects ai ! r)"
    if "r \<in> set (knowledge_base ai)" for r
    using mark_statements_nth [where r = r and f = "statement_mark_cell_as_mine c",
            OF statement_mark_cell_as_mine_idem _ v] v that by simp
  then show ?thesis
    using assms(2,3) by (auto simp: sound_def true_on_mark_mine)
qed

lemma fold_mark_cell_as_safe_sound:
  "well_formed ai \<Longrightarrow> sound w ai \<Longrightarrow> \<forall>c \<in> set cs. c |\<notin>| w \<Longrightarrow>
   sound w (fold mark_cell_as_safe cs ai)"
  by (induction cs arbitrary: ai) (simp_all add: mark_cell_as_safe_sound mark_cell_as_safe_well_formed)

lemma fold_mark_cell_as_mine_sound:
  "well_formed ai \<Longrightarrow> sound w ai \<Longrightarrow> \<forall>c \<in> set cs. c |\<in>| w \<Longrightarrow>
   sound w (fold mark_cell_as_mine cs ai)"
  by (induction cs arbitrary: ai) (simp_all add: mark_cell_as_mine_sound mark_cell_as_mine_well_formed)

lemma remove_empty_and_duplicate_statements_sound:
  "sound w ai \<Longrightarrow> sound w (remove_empty_and_duplicate_statements ai)"
  using remove_empty_and_duplicate_statements_subset [of ai] by (auto simp: sound_def)

lemma mark_known_cells_sound:
  assumes "well_formed ai" "sound w ai"
  shows "sound w (fst (mark_known_cells ai))"
proof -
  let ?safes = "collect_known_safes (objects ai) (knowledge_base ai)"
  let ?mines = "collect_known_mines (objects ai) (knowledge_base ai)"
  let ?ai1 = "fold mark_cell_as_safe (sorted_list_of_fset ?safes) ai"
  let ?ai2 = "fold mark_cell_as_mine (sorted_list_of_fset ?mines) ?ai1"
  have t: "true_on w (objects ai ! r)" if "r \<in> set (knowledge_base ai)" for r
    using assms(2) that by (simp add: sound_def)
  have s: "\<forall>c \<in> set (sorted_list_of_fset ?safes). c |\<notin>| w"
  proof
    fix c assume "c \<in> set (sorted_list_of_fset ?safes)"
    then have "c |\<in>| ?safes" by simp
    then obtain r where "r \<in> set (knowledge_base ai)" "c |\<in>| known_safes (objects ai ! r)"
      unfolding collect_known_safes_member by blast
    then show "c |\<notin>| w" using known_safes_true_on [OF t] by blast
  qed
  have m: "\<forall>c \<in> set (sorted_list_of_fset ?mines). c |\<in>| w"
  proof
    fix c assume "c \<in> set (sorted_list_of_fset ?mines)"
    then have "c |\<in>| ?mines" by simp
    then obtain r where "r \<in> set (knowledge_base ai)" "c |\<in>| known_mines (objects ai ! r)"
      unfolding collect_known_mines_member by blast
    then show "c |\<in>| w" using known_mines_true_on [OF t] by blast
  qed
  have w1: "well_formed ?ai1" using assms(1) by (rule fold_mark_cell_as_safe_well_formed)
  have s1: "sound w ?ai1" using assms s by (rule fold_mark_cell_as_safe_sound)
  have s2: "sound w ?ai2" using w1 s1 m by (rule fold_mark_cell_as_mine_sound)
  have "fst (mark_known_cells ai) = remove_empty_and_duplicate_statements ?ai2"
    by (simp add: mark_known_cells_def Let_def)
  then show ?thesis using remove_empty_and_duplicate_statements_sound [OF s2] by simp
qed

lemma merge_inferences_sound:
  assumes "well_formed ai" "sound w ai"
    and "run_algorithm (search_algorithm_method ai) (stat_generator ai) (objects ai)
           (knowledge_base ai) 0 = Some r"
  shows "sound w (fst (merge_inferences ai inferred_set marked r))"
proof -
  have kb: "\<forall>x \<in> set (knowledge_base ai). x < length (objects ai) \<and> true_on w (objects ai ! x)"
    using assms(1,2) by (simp add: well_formed_def sound_def)
  from run_algorithm_frame [OF assms(3)]
  have f: "result_knowledge_base r = knowledge_base ai"
    "take (length (objects ai)) (result_store r) = objects ai" by simp_all
  have old: "result_store r ! x = objects ai ! x"
    if "x < length (objects ai)" for x
    using f(2) that by (metis nth_take)
  have new: "\<forall>x \<in> set (result_inferred r). x < length (result_store r) \<and> true_on w (result_store r ! x)"
    using run_algorithm_all [OF closed_under_difference_true_on assms(3) kb] .
  show ?thesis
    unfolding sound_def merge_inferences_knowledge_base f(1)
    using kb old new assms(2) by (auto simp: sound_def)
qed

lemma propagation_pass_sound:
  assumes "well_formed ai" "sound w ai"
    and "propagation_pass ai inferred_set = Some (ai', inferred_set', changed)"
  shows "sound w ai'"
proof -
  from propagation_pass_SomeD [OF assms(3)] obtain r where
    r: "run_algorithm (search_algorithm_method (fst (mark_known_cells ai)))
               (stat_generator (fst (mark_known_cells ai))) (objects (fst (mark_known_cells ai)))
               (knowledge_base (fst (mark_known_cells ai))) 0 = Some r"
    and "(ai', inferred_set', changed) =
       merge_inferences (fst (mark_known_cells ai)) inferred_set (snd (mark_known_cells ai)) r"
    by blast
  then have "ai' = fst (merge_inferences (fst (mark_known_cells ai)) inferred_set
                          (snd (mark_known_cells ai)) r)"
    by (metis fst_conv)
  then show ?thesis
    using merge_inferences_sound [OF mark_known_cells_well_formed [OF assms(1)]
            mark_known_cells_sound [OF assms(1,2)] r] by simp
qed


lemma distinct_sorted_list_of_fset: "distinct (sorted_list_of_fset (S :: cell fset))"
  by (simp add: sorted_list_of_fset.rep_eq)

lemma fold_remove_known_mine_count:
  "distinct ms \<Longrightarrow>
   snd (fold remove_known_mine ms acc) = snd acc - int (fcard (fst acc |\<inter>| fset_of_list ms))"
proof (induction ms arbitrary: acc)
  case Nil
  then show ?case by simp
next
  case (Cons m ms)
  have d: "distinct ms" "m \<notin> set ms" using Cons.prems by simp_all
  show ?case
  proof (cases "m |\<in>| fst acc")
    case True
    have "fst acc |\<inter>| fset_of_list (m # ms)
            = finsert m ((fst acc |-| {|m|}) |\<inter>| fset_of_list ms)"
      using True by auto
    moreover have "m |\<notin>| (fst acc |-| {|m|}) |\<inter>| fset_of_list ms" by simp
    ultimately have "fcard (fst acc |\<inter>| fset_of_list (m # ms))
            = Suc (fcard ((fst acc |-| {|m|}) |\<inter>| fset_of_list ms))"
      by (simp add: fcard_finsert_disjoint)
    then show ?thesis
      using True Cons.IH [OF d(1), of "(fst acc |-| {|m|}, snd acc - 1)"]
      by (simp add: remove_known_mine_def)
  next
    case False
    have "fst acc |\<inter>| fset_of_list (m # ms) = fst acc |\<inter>| fset_of_list ms"
      using False by auto
    then show ?thesis
      using False Cons.IH [OF d(1), of acc] by (simp add: remove_known_mine_def)
  qed
qed

lemma true_on_new_statement:
  assumes "safe |\<inter>| w = {||}" "M |\<subseteq>| w"
  shows "true_on w (new_statement (N |-| safe |-| M)
           (int (fcard (N |\<inter>| w)) - int (fcard ((N |-| safe) |\<inter>| M))))"
proof -
  let ?A = "N |-| safe"
  let ?M' = "?A |\<inter>| M"
  have 1: "?A |-| M = ?A |-| ?M'" by auto
  have 2: "?A |\<inter>| w = N |\<inter>| w" using assms(1) by auto
  have 3: "?M' |\<inter>| w = ?M'" using assms(2) by auto
  have "int (fcard ((?A |-| ?M') |\<inter>| w)) = int (fcard (?A |\<inter>| w)) - int (fcard (?M' |\<inter>| w))"
    by (rule fcard_finter_fminus) auto
  then show ?thesis
    unfolding true_on_def new_statement_def using 1 2 3 by simp
qed

lemma add_statement_sound:
  assumes "well_formed ai" "sound w ai" "consistent w (grid_size ai) c n"
  shows "sound w (add_statement c n ai)"
proof -
  let ?ai1 = "ai\<lparr>stat_generator := reset_current_stats (stat_generator ai),
                   moves_made := finsert c (moves_made ai)\<rparr>"
  let ?ai2 = "mark_cell_as_safe c ?ai1"
  let ?acc = "fold remove_known_mine (sorted_list_of_fset (identified_mines ?ai2))
               (surrounding_cells_of (grid_size ?ai2) c |-| identified_safe_cells ?ai2, n)"
  let ?new = "new_statement (fst ?acc) (snd ?acc)"
  have cw: "c |\<notin>| w" and n: "n = int (fcard (surrounding_cells_of (grid_size ai) c |\<inter>| w))"
    using assms(3) by (simp_all add: consistent_def)
  have w1: "well_formed ?ai1"
    using assms(1) unresolved_cong [of ?ai1 ai] by (simp add: well_formed_def)
  have s1: "sound w ?ai1" using assms(2) by (simp add: sound_def)
  have w2: "well_formed ?ai2" using w1 by (rule mark_cell_as_safe_well_formed)
  have s2: "sound w ?ai2" using w1 s1 cw by (rule mark_cell_as_safe_sound)
  have safe: "identified_safe_cells ?ai2 |\<inter>| w = {||}" and mines: "identified_mines ?ai2 |\<subseteq>| w"
    using s2 by (simp_all add: sound_def)
  have cells: "fst ?acc = surrounding_cells_of (grid_size ?ai2) c |-| identified_safe_cells ?ai2
                  |-| identified_mines ?ai2"
    by (simp add: fold_remove_known_mine_cells)
  have count: "snd ?acc = n - int (fcard ((surrounding_cells_of (grid_size ?ai2) c
                  |-| identified_safe_cells ?ai2) |\<inter>| identified_mines ?ai2))"
    using fold_remove_known_mine_count [OF distinct_sorted_list_of_fset,
        of "identified_mines ?ai2"
        "(surrounding_cells_of (grid_size ?ai2) c |-| identified_safe_cells ?ai2, n)"]
    by simp
  have e: "?new = new_statement
              (surrounding_cells_of (grid_size ?ai2) c |-| identified_safe_cells ?ai2
                  |-| identified_mines ?ai2)
              (n - int (fcard ((surrounding_cells_of (grid_size ?ai2) c
                  |-| identified_safe_cells ?ai2) |\<inter>| identified_mines ?ai2)))"
    using cells count by simp
  have t: "true_on w ?new"
    unfolding e
    using true_on_new_statement [OF safe mines, of "surrounding_cells_of (grid_size ai) c"]
    by (simp add: n)
  show ?thesis
  proof (cases "fst ?acc = {||}")
    case True
    then have "add_statement c n ai = ?ai2"
      by (simp add: add_statement_def Let_def case_prod_beta)
    then show ?thesis using s2 by simp
  next
    case False
    let ?ai3 = "?ai2\<lparr>objects := objects ?ai2 @ [?new],
                      knowledge_base := knowledge_base ?ai2 @ [length (objects ?ai2)]\<rparr>"
    have eq: "add_statement c n ai = ?ai3"
      using False by (simp add: add_statement_def Let_def case_prod_beta)
    have v: "\<forall>x \<in> set (knowledge_base ?ai2). x < length (objects ?ai2)"
      using w2 by (simp add: well_formed_def)
    have "\<forall>r \<in> set (knowledge_base ?ai3). true_on w (objects ?ai3 ! r)"
      using s2 v t by (auto simp: sound_def nth_append)
    then show ?thesis
      unfolding eq using safe mines by (simp add: sound_def)
  qed
qed


section \<open>The tree searches return\<close>

lemma inferred_distinct_comparisons [simp]:
  "inferred_distinct (sc\<lparr>comparisons := n\<rparr>) = inferred_distinct sc"
  by (simp add: inferred_distinct_def)

lemma inferred_distinct_append:
  assumes "inferred_distinct sc" "new \<notin> set (deref (store sc) (inferred sc))"
  shows "inferred_distinct (sc\<lparr>store := store sc @ [new], inferred := inferred sc @ [length (store sc)]\<rparr>)"
proof -
  have v: "\<forall>x \<in> set (inferred sc). x < length (store sc)"
    using assms(1) by (simp add: inferred_distinct_def list_all_iff)
  then have "deref (store sc @ [new]) (inferred sc) = deref (store sc) (inferred sc)"
    by (simp add: deref_def nth_append)
  then have "deref (store sc @ [new]) (inferred sc @ [length (store sc)])
               = deref (store sc) (inferred sc) @ [new]"
    by (simp add: deref_def)
  then show ?thesis
    using assms v by (auto simp: inferred_distinct_def list_all_iff)
qed

lemma bfs_compare_steady:
  assumes "inferred_distinct (ts_scan st)"
  shows "inferred_distinct (ts_scan (bfs_compare kb a b st)) \<and> excess (bfs_compare kb a b st) = excess st"
proof -
  let ?sc = "ts_scan st"
  let ?sc1 = "?sc\<lparr>comparisons := comparisons ?sc + 1\<rparr>"
  let ?new = "difference_statement (store ?sc ! a) (store ?sc ! b)"
  show ?thesis
  proof (cases "cell_positions (store ?sc ! a) |\<subseteq>| cell_positions (store ?sc ! b)
                 \<and> ?new \<notin> set (deref (store ?sc) (inferred ?sc))")
    case True
    have st': "bfs_compare kb a b st =
        st\<lparr>ts_scan := ?sc1\<lparr>store := store ?sc @ [?new], inferred := inferred ?sc @ [length (store ?sc)]\<rparr>,
           ts_frontier := ts_frontier st @ [kb @ [length (store ?sc)]]\<rparr>"
      using True by (simp add: bfs_compare_def Let_def append_if_new_def)
    have "inferred_distinct (?sc1\<lparr>store := store ?sc1 @ [?new],
              inferred := inferred ?sc1 @ [length (store ?sc1)]\<rparr>)"
      using assms True by (intro inferred_distinct_append) simp_all
    then show ?thesis unfolding st' by (simp add: excess_def)
  next
    case False
    then have "bfs_compare kb a b st = st\<lparr>ts_scan := ?sc1\<rparr>"
      by (auto simp: bfs_compare_def Let_def)
    then show ?thesis using assms by (simp add: excess_def)
  qed
qed

lemma bfs_inner_steady:
  "inferred_distinct (ts_scan st) \<Longrightarrow>
   inferred_distinct (ts_scan (bfs_inner kb a bs st)) \<and> excess (bfs_inner kb a bs st) = excess st"
proof (induction bs arbitrary: st)
  case Nil
  then show ?case by simp
next
  case (Cons b bs)
  from bfs_compare_steady [OF Cons.prems, of kb a b] Cons.IH [of "bfs_compare kb a b st"]
  show ?case by simp
qed

lemma bfs_pairs_steady:
  "inferred_distinct (ts_scan st) \<Longrightarrow>
   inferred_distinct (ts_scan (bfs_pairs kb as st)) \<and> excess (bfs_pairs kb as st) = excess st"
proof (induction as arbitrary: st)
  case Nil
  then show ?case by simp
next
  case (Cons a as)
  from bfs_inner_steady [OF Cons.prems, of kb a as] Cons.IH [of "bfs_inner kb a as st"]
  show ?case by simp
qed

lemma dfs_compare_steady:
  assumes "inferred_distinct (ts_scan st)"
  shows "inferred_distinct (ts_scan (dfs_compare kb a b st)) \<and> excess (dfs_compare kb a b st) = excess st"
proof -
  let ?sc = "ts_scan st"
  let ?sc1 = "?sc\<lparr>comparisons := comparisons ?sc + 1\<rparr>"
  let ?new = "difference_statement (store ?sc ! a) (store ?sc ! b)"
  show ?thesis
  proof (cases "cell_positions (store ?sc ! a) |\<subseteq>| cell_positions (store ?sc ! b)
                 \<and> mine_count ?new \<ge> 0 \<and> cell_positions ?new \<noteq> {||}
                 \<and> ?new \<notin> set (deref (store ?sc) (inferred ?sc))")
    case True
    have st': "dfs_compare kb a b st =
        st\<lparr>ts_scan := ?sc1\<lparr>store := store ?sc @ [?new], inferred := inferred ?sc @ [length (store ?sc)]\<rparr>,
           ts_frontier := ts_frontier st @ [kb @ [length (store ?sc)]]\<rparr>"
      using True by (simp add: dfs_compare_def Let_def append_if_new_def)
    have "inferred_distinct (?sc1\<lparr>store := store ?sc1 @ [?new],
              inferred := inferred ?sc1 @ [length (store ?sc1)]\<rparr>)"
      using assms True by (intro inferred_distinct_append) simp_all
    then show ?thesis unfolding st' by (simp add: excess_def)
  next
    case False
    then have "dfs_compare kb a b st = st\<lparr>ts_scan := ?sc1\<rparr>"
      by (auto simp: dfs_compare_def Let_def)
    then show ?thesis using assms by (simp add: excess_def)
  qed
qed

lemma dfs_inner_steady:
  "inferred_distinct (ts_scan st) \<Longrightarrow>
   inferred_distinct (ts_scan (dfs_inner kb a bs st)) \<and> excess (dfs_inner kb a bs st) = excess st"
proof (induction bs arbitrary: st)
  case Nil
  then show ?case by simp
next
  case (Cons b bs)
  from dfs_compare_steady [OF Cons.prems, of kb a b] Cons.IH [of "dfs_compare kb a b st"]
  show ?case by simp
qed

lemma dfs_pairs_steady:
  "inferred_distinct (ts_scan st) \<Longrightarrow>
   inferred_distinct (ts_scan (dfs_pairs kb as st)) \<and> excess (dfs_pairs kb as st) = excess st"
proof (induction as arbitrary: st)
  case Nil
  then show ?case by simp
next
  case (Cons a as)
  from dfs_inner_steady [OF Cons.prems, of kb a as] Cons.IH [of "dfs_inner kb a as st"]
  show ?case by simp
qed

lemma inferred_bound:
  assumes "finite {s. Q s}" "all_inferred Q sc" "inferred_distinct sc"
  shows "length (inferred sc) \<le> card {s. Q s}"
proof -
  have "set (deref (store sc) (inferred sc)) \<subseteq> {s. Q s}"
    using assms(2) by (auto simp: all_inferred_def deref_def)
  then have "card (set (deref (store sc) (inferred sc))) \<le> card {s. Q s}"
    using assms(1) by (rule card_mono [rotated])
  moreover have "card (set (deref (store sc) (inferred sc))) = length (inferred sc)"
    using assms(3) distinct_card [of "deref (store sc) (inferred sc)"]
    by (simp add: inferred_distinct_def deref_def)
  ultimately show ?thesis by simp
qed

lemma bfs_loop_returns:
  assumes "closed_under_difference Q" "finite {s. Q s}"
  shows "tree_all Q st \<Longrightarrow> inferred_distinct (ts_scan st) \<Longrightarrow> \<exists>st'. bfs_loop st = Some st'"
proof (induction "nat (int (card {s. Q s}) + excess st)" arbitrary: st rule: less_induct)
  case less
  have bound: "0 \<le> int (card {s. Q s}) + excess st'" "excess st' + int (length (inferred (ts_scan st'))) = int (length (ts_frontier st'))"
    if "tree_all Q st'" "inferred_distinct (ts_scan st')" for st'
    using inferred_bound [OF assms(2) _ that(2)] that(1)
    by (simp_all add: excess_def tree_all_def)
  show ?case
  proof (cases "ts_frontier st")
    case Nil
    then show ?thesis by (subst bfs_loop.simps) simp
  next
    case (Cons current_kb queue)
    let ?key = "kb_key_of (store (ts_scan st)) current_kb"
    have t1: "tree_all Q (st\<lparr>ts_frontier := queue\<rparr>)"
      and n: "node_ok Q (ts_scan st) current_kb"
      using less.prems(1) Cons by (simp_all add: tree_all_def)
    have e1: "excess (st\<lparr>ts_frontier := queue\<rparr>) = excess st - 1"
      using Cons by (simp add: excess_def)
    show ?thesis
    proof (cases "?key \<in> ts_visited st")
      case True
      have "\<exists>st'. bfs_loop (st\<lparr>ts_frontier := queue\<rparr>) = Some st'"
        using bound [OF less.prems] bound [OF t1] less.prems(2) e1
        by (intro less.hyps t1) simp_all
      then show ?thesis using Cons True by (subst bfs_loop.simps) (simp add: Let_def)
    next
      case False
      let ?st1 = "st\<lparr>ts_frontier := queue, ts_visited := insert ?key (ts_visited st)\<rparr>"
      let ?st = "bfs_pairs current_kb current_kb ?st1"
      have t1': "tree_all Q ?st1" using t1 by (simp add: tree_all_def)
      have t: "tree_all Q ?st"
        using bfs_pairs_tree [OF assms(1) t1', of current_kb current_kb] n by simp
      have s: "inferred_distinct (ts_scan ?st)" "excess ?st = excess ?st1"
        using bfs_pairs_steady [of ?st1 current_kb current_kb] less.prems(2) by simp_all
      have e: "excess ?st = excess st - 1"
        unfolding s(2) using Cons by (simp add: excess_def)
      have "\<exists>st'. bfs_loop ?st = Some st'"
        using bound [OF less.prems] bound [OF t s(1)] e
        by (intro less.hyps t s(1)) simp_all
      then show ?thesis using Cons False by (subst bfs_loop.simps) (simp add: Let_def)
    qed
  qed
qed

lemma dfs_loop_returns:
  assumes "closed_under_difference Q" "finite {s. Q s}"
  shows "tree_all Q st \<Longrightarrow> inferred_distinct (ts_scan st) \<Longrightarrow> \<exists>st'. dfs_loop st = Some st'"
proof (induction "nat (int (card {s. Q s}) + excess st)" arbitrary: st rule: less_induct)
  case less
  have bound: "0 \<le> int (card {s. Q s}) + excess st'"
    if "tree_all Q st'" "inferred_distinct (ts_scan st')" for st'
    using inferred_bound [OF assms(2) _ that(2)] that(1)
    by (simp_all add: excess_def tree_all_def)
  show ?case
  proof (cases "ts_frontier st = []")
    case True
    then show ?thesis by (subst dfs_loop.simps) simp
  next
    case ne: False
    let ?kb = "last (ts_frontier st)"
    let ?key = "kb_key_of (store (ts_scan st)) ?kb"
    let ?st0 = "st\<lparr>ts_frontier := butlast (ts_frontier st)\<rparr>"
    have t1: "tree_all Q ?st0"
      and n: "node_ok Q (ts_scan st) ?kb"
      using less.prems(1) ne by (auto simp: tree_all_def dest: in_set_butlastD)
    have l: "int (length (butlast (ts_frontier st))) = int (length (ts_frontier st)) - 1"
      using ne by (cases "ts_frontier st" rule: rev_cases) simp_all
    have e1: "excess ?st0 = excess st - 1"
      by (simp add: excess_def l del: length_butlast)
    show ?thesis
    proof (cases "?key \<in> ts_visited st")
      case True
      have "\<exists>st'. dfs_loop ?st0 = Some st'"
        using bound [OF less.prems] bound [OF t1] less.prems(2) e1
        by (intro less.hyps t1) simp_all
      then show ?thesis using ne True by (subst dfs_loop.simps) (simp add: Let_def)
    next
      case False
      let ?st1 = "?st0\<lparr>ts_visited := insert ?key (ts_visited st)\<rparr>"
      let ?st = "dfs_pairs ?kb ?kb ?st1"
      have t1': "tree_all Q ?st1" using t1 by (simp add: tree_all_def)
      have t: "tree_all Q ?st"
        using dfs_pairs_tree [OF assms(1) t1', of ?kb ?kb] n by simp
      have s: "inferred_distinct (ts_scan ?st)" "excess ?st = excess ?st1"
        using dfs_pairs_steady [of ?st1 ?kb ?kb] less.prems(2) by simp_all
      have e: "excess ?st = excess st - 1"
        unfolding s(2) by (simp add: excess_def l del: length_butlast)
      have "\<exists>st'. dfs_loop ?st = Some st'"
        using bound [OF less.prems] bound [OF t s(1)] e
        by (intro less.hyps t s(1)) simp_all
      then show ?thesis using ne False by (subst dfs_loop.simps) (simp add: Let_def)
    qed
  qed
qed

lemma run_algorithm_returns:
  assumes "closed_under_difference Q" "finite {s. Q s}"
    and kb: "\<forall>x \<in> set kb. x < length h \<and> Q (h ! x)"
  shows "\<exists>r. run_algorithm alg g h kb n = Some r"
proof (cases alg)
  case Bfs
  let ?st = "\<lparr>ts_scan = \<lparr>store = h, inferred = [], comparisons = n\<rparr>,
              ts_frontier = [sorted_by_size h kb], ts_visited = {}\<rparr>"
  have "tree_all Q ?st"
    using kb by (simp add: tree_all_def all_inferred_def node_ok_def sorted_by_size_def)
  moreover have "inferred_distinct (ts_scan ?st)"
    by (simp add: inferred_distinct_def deref_def)
  ultimately obtain st' where "bfs_loop ?st = Some st'"
    using bfs_loop_returns [OF assms(1,2)] by blast
  then show ?thesis using Bfs by (simp add: bfs_search_def)
next
  case Dfs
  let ?st = "\<lparr>ts_scan = \<lparr>store = h, inferred = [], comparisons = n\<rparr>,
              ts_frontier = [sorted_by_negated_size h kb], ts_visited = {}\<rparr>"
  have "tree_all Q ?st"
    using kb by (simp add: tree_all_def all_inferred_def node_ok_def sorted_by_negated_size_def)
  moreover have "inferred_distinct (ts_scan ?st)"
    by (simp add: inferred_distinct_def deref_def)
  ultimately obtain st' where "dfs_loop ?st = Some st'"
    using dfs_loop_returns [OF assms(1,2)] by blast
  then show ?thesis using Dfs by (simp add: dfs_search_def)
qed simp_all


section \<open>The loop ends on the observations of one board\<close>

lemma in_grid_cells: "c |\<in>| grid_cells n \<longleftrightarrow> in_grid n c"
  by (cases c) (force simp: grid_cells_def in_grid_def fset_of_list_elem)

lemma finite_true_statements: "finite (true_statements w n)"
proof -
  let ?f = "\<lambda>S. new_statement S (int (fcard (S |\<inter>| w)))"
  have "true_statements w n \<subseteq> ?f ` fset (fPow (grid_cells n))"
  proof
    fix s assume "s \<in> true_statements w n"
    then have "cell_positions s |\<subseteq>| grid_cells n" "mine_count s = int (fcard (cell_positions s |\<inter>| w))"
      by (simp_all add: true_statements_def true_on_def)
    then have "s = ?f (cell_positions s)" "cell_positions s \<in> fset (fPow (grid_cells n))"
      by (simp_all add: new_statement_def)
    then show "s \<in> ?f ` fset (fPow (grid_cells n))" by (rule image_eqI)
  qed
  then show ?thesis by (rule finite_subset) simp
qed

lemma unresolved_true_statements:
  "unresolved ai s \<Longrightarrow> true_on w s \<Longrightarrow> s \<in> true_statements w (grid_size ai)"
  by (auto simp: true_statements_def unresolved_def in_grid_cells)

lemma finite_unresolved_true: "finite {s. unresolved ai s \<and> true_on w s}"
  by (rule finite_subset [OF _ finite_true_statements [of w "grid_size ai"]])
     (auto intro: unresolved_true_statements)

lemma closed_under_difference_conj:
  "closed_under_difference P \<Longrightarrow> closed_under_difference Q \<Longrightarrow>
   closed_under_difference (\<lambda>s. P s \<and> Q s)"
  by (simp add: closed_under_difference_def)

lemma propagation_pass_returns:
  assumes "well_formed ai" "sound w ai"
  shows "\<exists>res. propagation_pass ai inferred_set = Some res"
proof -
  let ?ai1 = "fst (mark_known_cells ai)"
  have w1: "well_formed ?ai1" using assms(1) by (rule mark_known_cells_well_formed)
  have s1: "sound w ?ai1" using assms by (rule mark_known_cells_sound)
  have kb: "\<forall>x \<in> set (knowledge_base ?ai1).
              x < length (objects ?ai1) \<and> (unresolved ?ai1 (objects ?ai1 ! x) \<and> true_on w (objects ?ai1 ! x))"
    using w1 s1 by (simp add: well_formed_def sound_def)
  have "\<exists>r. run_algorithm (search_algorithm_method ?ai1) (stat_generator ?ai1) (objects ?ai1)
              (knowledge_base ?ai1) 0 = Some r"
    by (rule run_algorithm_returns [OF closed_under_difference_conj
            [OF closed_under_difference_unresolved closed_under_difference_true_on]
            finite_unresolved_true kb])
  then obtain r where "run_algorithm (search_algorithm_method ?ai1) (stat_generator ?ai1)
              (objects ?ai1) (knowledge_base ?ai1) 0 = Some r" by blast
  then show ?thesis
    by (simp add: propagation_pass_def case_prod_beta) (metis prod_cases3)
qed


lemma python_set_update_entries:
  "set (python_set_update h rs entries) \<subseteq> set entries \<union> (\<lambda>r. (h ! r, r)) ` set rs"
  unfolding python_set_update_def
proof (induction rs arbitrary: entries)
  case Nil
  show ?case by simp
next
  case (Cons r rs)
  have "set (python_set_add h r entries) \<subseteq> set entries \<union> {(h ! r, r)}"
    by (auto simp: python_set_add_def)
  then show ?case using Cons [of "python_set_add h r entries"] by auto
qed

lemma recorded_initial:
  assumes "well_formed ai"
  shows "recorded ai (python_set_update (objects ai) (knowledge_base ai) [])"
proof -
  have "member < length (objects ai) \<and> objects ai ! member = hashed"
    if "(hashed, member) \<in> set (python_set_update (objects ai) (knowledge_base ai) [])"
    for hashed member
    using python_set_update_entries [of "objects ai" "knowledge_base ai" "[]"] that assms
    by (auto simp: well_formed_def)
  then show ?thesis by (auto simp: recorded_def)
qed

lemma recorded_step:
  assumes "recorded ai s"
    and "identified_safe_cells ai |\<subseteq>| identified_safe_cells ai'"
    and "identified_mines ai |\<subseteq>| identified_mines ai'"
    and "length (objects ai) \<le> length (objects ai')"
    and "\<And>m. m < length (objects ai) \<Longrightarrow>
           objects ai' ! m = objects ai ! m \<or>
           (\<exists>c. c |\<in>| cell_positions (objects ai ! m) \<and>
                 (c |\<in>| identified_safe_cells ai' \<or> c |\<in>| identified_mines ai'))"
  shows "recorded ai' s"
  unfolding recorded_def
proof (intro ballI, clarify)
  fix hashed member
  assume e: "(hashed, member) \<in> set s"
    and n: "\<not> (member < length (objects ai') \<and> objects ai' ! member = hashed)"
  from assms(1) e consider
    (gone) c where "c |\<in>| cell_positions hashed"
        "c |\<in>| identified_safe_cells ai \<or> c |\<in>| identified_mines ai"
    | (kept) "member < length (objects ai)" "objects ai ! member = hashed"
    by (auto simp: recorded_def)
  then show "\<exists>c. c |\<in>| cell_positions hashed \<and>
       (c |\<in>| identified_safe_cells ai' \<or> c |\<in>| identified_mines ai')"
  proof cases
    case gone
    then show ?thesis using assms(2,3) by blast
  next
    case kept
    then show ?thesis using assms(4) assms(5) [of member] n by auto
  qed
qed

lemma mark_cell_as_safe_recorded:
  assumes "well_formed ai" "recorded ai s"
  shows "recorded (mark_cell_as_safe c ai) s"
proof (rule recorded_step [OF assms(2)])
  fix m assume m: "m < length (objects ai)"
  have v: "\<forall>y \<in> set (knowledge_base ai). y < length (objects ai)"
    using assms(1) by (simp add: well_formed_def)
  have "objects (mark_cell_as_safe c ai) ! m
          = (if m \<in> set (knowledge_base ai) then statement_mark_cell_as_safe c (objects ai ! m)
             else objects ai ! m)"
    using mark_statements_nth [where r = m and f = "statement_mark_cell_as_safe c",
            OF statement_mark_cell_as_safe_idem m v] by simp
  then show "objects (mark_cell_as_safe c ai) ! m = objects ai ! m \<or>
           (\<exists>c'. c' |\<in>| cell_positions (objects ai ! m) \<and>
                 (c' |\<in>| identified_safe_cells (mark_cell_as_safe c ai) \<or>
                  c' |\<in>| identified_mines (mark_cell_as_safe c ai)))"
  proof (cases "c |\<in>| cell_positions (objects ai ! m)")
    case True
    moreover have "c |\<in>| identified_safe_cells (mark_cell_as_safe c ai)" by simp
    ultimately show ?thesis by blast
  next
    case False
    then show ?thesis using \<open>objects (mark_cell_as_safe c ai) ! m = _\<close>
      by (simp add: statement_mark_cell_as_safe_def)
  qed
qed auto

lemma mark_cell_as_mine_recorded:
  assumes "well_formed ai" "recorded ai s"
  shows "recorded (mark_cell_as_mine c ai) s"
proof (rule recorded_step [OF assms(2)])
  fix m assume m: "m < length (objects ai)"
  have v: "\<forall>y \<in> set (knowledge_base ai). y < length (objects ai)"
    using assms(1) by (simp add: well_formed_def)
  have "objects (mark_cell_as_mine c ai) ! m
          = (if m \<in> set (knowledge_base ai) then statement_mark_cell_as_mine c (objects ai ! m)
             else objects ai ! m)"
    using mark_statements_nth [where r = m and f = "statement_mark_cell_as_mine c",
            OF statement_mark_cell_as_mine_idem m v] by simp
  then show "objects (mark_cell_as_mine c ai) ! m = objects ai ! m \<or>
           (\<exists>c'. c' |\<in>| cell_positions (objects ai ! m) \<and>
                 (c' |\<in>| identified_safe_cells (mark_cell_as_mine c ai) \<or>
                  c' |\<in>| identified_mines (mark_cell_as_mine c ai)))"
  proof (cases "c |\<in>| cell_positions (objects ai ! m)")
    case True
    moreover have "c |\<in>| identified_mines (mark_cell_as_mine c ai)" by simp
    ultimately show ?thesis by blast
  next
    case False
    then show ?thesis using \<open>objects (mark_cell_as_mine c ai) ! m = _\<close>
      by (simp add: statement_mark_cell_as_mine_def)
  qed
qed auto

lemma fold_mark_cell_as_safe_recorded:
  "well_formed ai \<Longrightarrow> recorded ai s \<Longrightarrow> recorded (fold mark_cell_as_safe cs ai) s"
  by (induction cs arbitrary: ai)
     (simp_all add: mark_cell_as_safe_recorded mark_cell_as_safe_well_formed)

lemma fold_mark_cell_as_mine_recorded:
  "well_formed ai \<Longrightarrow> recorded ai s \<Longrightarrow> recorded (fold mark_cell_as_mine cs ai) s"
  by (induction cs arbitrary: ai)
     (simp_all add: mark_cell_as_mine_recorded mark_cell_as_mine_well_formed)

lemma mark_known_cells_recorded:
  assumes "well_formed ai" "recorded ai s"
  shows "recorded (fst (mark_known_cells ai)) s"
proof -
  let ?safes = "sorted_list_of_fset (collect_known_safes (objects ai) (knowledge_base ai))"
  let ?mines = "sorted_list_of_fset (collect_known_mines (objects ai) (knowledge_base ai))"
  let ?ai1 = "fold mark_cell_as_safe ?safes ai"
  let ?ai2 = "fold mark_cell_as_mine ?mines ?ai1"
  have w1: "well_formed ?ai1" using assms(1) by (rule fold_mark_cell_as_safe_well_formed)
  have r1: "recorded ?ai1 s" using assms by (rule fold_mark_cell_as_safe_recorded)
  have r2: "recorded ?ai2 s" using w1 r1 by (rule fold_mark_cell_as_mine_recorded)
  have "fst (mark_known_cells ai) = remove_empty_and_duplicate_statements ?ai2"
    by (simp add: mark_known_cells_def Let_def)
  then show ?thesis using r2 by (simp add: recorded_def)
qed

lemma merge_inferences_inferred_set:
  "fst (snd (merge_inferences ai s marked r))
     = python_set_update (result_store r)
         (filter (\<lambda>inf. \<not> python_set_contains (result_store r) s inf) (result_inferred r)) s"
  by (simp add: merge_inferences_def Let_def python_set_update_def)

lemma merge_inferences_changed:
  "snd (snd (merge_inferences ai s marked r))
     \<longleftrightarrow> marked \<or> filter (\<lambda>inf. \<not> python_set_contains (result_store r) s inf) (result_inferred r) \<noteq> []"
  by (simp add: merge_inferences_def Let_def)

lemma merge_inferences_recorded:
  assumes "well_formed ai" "recorded ai s"
    and run: "run_algorithm (search_algorithm_method ai) (stat_generator ai) (objects ai)
           (knowledge_base ai) 0 = Some r"
  shows "recorded (fst (merge_inferences ai s marked r)) (fst (snd (merge_inferences ai s marked r)))"
proof -
  let ?ai' = "fst (merge_inferences ai s marked r)"
  let ?new = "filter (\<lambda>inf. \<not> python_set_contains (result_store r) s inf) (result_inferred r)"
  have kb: "\<forall>x \<in> set (knowledge_base ai). x < length (objects ai) \<and> unresolved ai (objects ai ! x)"
    using assms(1) by (simp add: well_formed_def)
  have t: "take (length (objects ai)) (result_store r) = objects ai"
    using run_algorithm_frame [OF run] by simp
  have old: "result_store r ! x = objects ai ! x" "x < length (result_store r)"
    if "x < length (objects ai)" for x
    using t that by (metis nth_take, metis length_take min_less_iff_conj)
  have len: "length (objects ai) \<le> length (result_store r)"
    using arg_cong [OF t, of length] by simp
  have valid: "\<forall>x \<in> set (result_inferred r). x < length (result_store r)"
    using run_algorithm_all [OF closed_under_difference_unresolved run kb] by blast
  have r1: "recorded ?ai' s"
    by (rule recorded_step [OF assms(2)]) (simp_all add: old len)
  have "(\<exists>c. c |\<in>| cell_positions hashed \<and>
              (c |\<in>| identified_safe_cells ?ai' \<or> c |\<in>| identified_mines ?ai')) \<or>
        (member < length (objects ?ai') \<and> objects ?ai' ! member = hashed)"
    if "(hashed, member) \<in> set (python_set_update (result_store r) ?new s)" for hashed member
  proof (cases "(hashed, member) \<in> set s")
    case True
    then show ?thesis using r1 by (auto simp: recorded_def)
  next
    case False
    then have "member \<in> set ?new" "hashed = result_store r ! member"
      using python_set_update_entries [of "result_store r" ?new s] that by auto
    then show ?thesis using valid by simp
  qed
  then show ?thesis
    unfolding merge_inferences_inferred_set recorded_def by blast
qed

lemma never_hashed:
  assumes "recorded ai s"
    and "\<And>m. m < length (objects ai) \<Longrightarrow> h ! m = objects ai ! m"
    and "unresolved ai (h ! x)" "\<not> python_set_contains h s x"
  shows "h ! x \<notin> fst ` set s"
proof
  assume "h ! x \<in> fst ` set s"
  then obtain member where e: "(h ! x, member) \<in> set s" by force
  from assms(1) e consider
    (gone) c where "c |\<in>| cell_positions (h ! x)"
        "c |\<in>| identified_safe_cells ai \<or> c |\<in>| identified_mines ai"
    | (kept) "member < length (objects ai)" "objects ai ! member = h ! x"
    by (auto simp: recorded_def)
  then show False
  proof cases
    case gone
    then show ?thesis using assms(3) unfolding unresolved_def by blast
  next
    case kept
    then have "h ! member = h ! x" using assms(2) by simp
    then have "python_set_contains h s x"
      using e by (auto simp: python_set_contains_def list_ex_iff)
    then show ?thesis using assms(4) by simp
  qed
qed


lemma mark_known_cells_undetermined:
  "undetermined (fst (mark_known_cells ai)) |\<subseteq>| undetermined ai"
  by (auto simp: undetermined_def)

lemma mark_known_cells_identifies:
  assumes "well_formed ai" "snd (mark_known_cells ai)"
  shows "undetermined (fst (mark_known_cells ai)) |\<subset>| undetermined ai"
proof -
  let ?safes = "collect_known_safes (objects ai) (knowledge_base ai)"
  let ?mines = "collect_known_mines (objects ai) (knowledge_base ai)"
  have "?safes \<noteq> {||} \<or> ?mines \<noteq> {||}"
    using assms(2) by (simp add: mark_known_cells_def Let_def)
  then obtain c where c: "c |\<in>| ?safes |\<union>| ?mines" by auto
  then obtain r where r: "r \<in> set (knowledge_base ai)" "c |\<in>| cell_positions (objects ai ! r)"
    unfolding funion_iff collect_known_safes_member collect_known_mines_member
    by (auto simp: known_safes_def known_mines_def split: if_splits)
  have "unresolved ai (objects ai ! r)" using assms(1) r(1) by (simp add: well_formed_def)
  then have "in_grid (grid_size ai) c" "c |\<notin>| identified_safe_cells ai" "c |\<notin>| identified_mines ai"
    using r(2) unfolding unresolved_def by blast+
  then have 1: "c |\<in>| undetermined ai" by (simp add: undetermined_def in_grid_cells)
  have 2: "c |\<notin>| undetermined (fst (mark_known_cells ai))"
    using c by (auto simp: undetermined_def)
  show ?thesis using 1 2 mark_known_cells_undetermined [of ai] by blast
qed

lemma propagation_pass_progress:
  assumes "well_formed ai" "sound w ai" "recorded ai s"
    and pass: "propagation_pass ai s = Some (ai', s', changed)"
  shows "recorded ai' s'" and "grid_size ai' = grid_size ai"
    and "undetermined ai' |\<subseteq>| undetermined ai" and "fst ` set s \<subseteq> fst ` set s'"
    and "changed \<Longrightarrow>
           undetermined ai' |\<subset>| undetermined ai \<or>
           (\<exists>x \<in> set (knowledge_base ai'). x < length (objects ai') \<and>
               objects ai' ! x \<in> true_statements w (grid_size ai) \<and>
               objects ai' ! x \<notin> fst ` set s \<and> objects ai' ! x \<in> fst ` set s')"
proof -
  let ?ai1 = "fst (mark_known_cells ai)"
  let ?marked = "snd (mark_known_cells ai)"
  from propagation_pass_SomeD [OF pass] obtain r where
    run: "run_algorithm (search_algorithm_method ?ai1) (stat_generator ?ai1) (objects ?ai1)
               (knowledge_base ?ai1) 0 = Some r"
    and res: "(ai', s', changed) = merge_inferences ?ai1 s ?marked r"
    by blast
  let ?new = "filter (\<lambda>inf. \<not> python_set_contains (result_store r) s inf) (result_inferred r)"
  have ai': "ai' = fst (merge_inferences ?ai1 s ?marked r)"
    and s': "s' = fst (snd (merge_inferences ?ai1 s ?marked r))"
    and ch: "changed = snd (snd (merge_inferences ?ai1 s ?marked r))"
    using res by (metis fst_conv, metis fst_conv snd_conv, metis snd_conv)
  have w1: "well_formed ?ai1" using assms(1) by (rule mark_known_cells_well_formed)
  have s1: "sound w ?ai1" using assms(1,2) by (rule mark_known_cells_sound)
  have r1: "recorded ?ai1 s" using assms(1,3) by (rule mark_known_cells_recorded)
  show "recorded ai' s'"
    unfolding ai' s' using w1 r1 run by (rule merge_inferences_recorded)
  show g: "grid_size ai' = grid_size ai" by (simp add: ai')
  have u: "undetermined ai' = undetermined ?ai1" by (simp add: ai' undetermined_def)
  show "undetermined ai' |\<subseteq>| undetermined ai"
    unfolding u by (rule mark_known_cells_undetermined)
  have hashed: "fst ` set s' = fst ` set s \<union> (\<lambda>x. result_store r ! x) ` set ?new"
    unfolding s' merge_inferences_inferred_set python_set_update_hashed ..
  then show "fst ` set s \<subseteq> fst ` set s'" by blast
  show "undetermined ai' |\<subset>| undetermined ai \<or>
           (\<exists>x \<in> set (knowledge_base ai'). x < length (objects ai') \<and>
               objects ai' ! x \<in> true_statements w (grid_size ai) \<and>
               objects ai' ! x \<notin> fst ` set s \<and> objects ai' ! x \<in> fst ` set s')"
    if "changed"
  proof (cases ?marked)
    case True
    then show ?thesis unfolding u using mark_known_cells_identifies [OF assms(1)] by blast
  next
    case False
    then have "?new \<noteq> []" using that unfolding ch merge_inferences_changed by blast
    then obtain x where x: "x \<in> set ?new" by (auto simp: filter_empty_conv)
    then have xi: "x \<in> set (result_inferred r)"
      and xn: "\<not> python_set_contains (result_store r) s x" by simp_all
    have kb: "\<forall>x \<in> set (knowledge_base ?ai1).
              x < length (objects ?ai1) \<and> (unresolved ?ai1 (objects ?ai1 ! x) \<and> true_on w (objects ?ai1 ! x))"
      using w1 s1 by (simp add: well_formed_def sound_def)
    have "\<forall>x \<in> set (result_inferred r). x < length (result_store r) \<and>
            (unresolved ?ai1 (result_store r ! x) \<and> true_on w (result_store r ! x))"
      by (rule run_algorithm_all [OF closed_under_difference_conj
            [OF closed_under_difference_unresolved closed_under_difference_true_on] run kb])
    then have xl: "x < length (result_store r)" and xu: "unresolved ?ai1 (result_store r ! x)"
      and xt: "true_on w (result_store r ! x)" using xi by blast+
    have t: "take (length (objects ?ai1)) (result_store r) = objects ?ai1"
      using run_algorithm_frame [OF run] by simp
    have old: "result_store r ! m = objects ?ai1 ! m" if "m < length (objects ?ai1)" for m
      using t that by (metis nth_take)
    have fresh: "result_store r ! x \<notin> fst ` set s"
      using r1 old xu xn by (rule never_hashed)
    have "x \<in> set (knowledge_base ai')"
      unfolding ai' merge_inferences_knowledge_base using x by simp
    moreover have "x < length (objects ai')" using xl by (simp add: ai')
    moreover have "objects ai' ! x \<in> true_statements w (grid_size ai)"
      using unresolved_true_statements [OF xu xt] by (simp add: ai')
    moreover have "objects ai' ! x \<notin> fst ` set s" using fresh by (simp add: ai')
    moreover have "objects ai' ! x \<in> fst ` set s'"
      unfolding hashed using x by (simp add: ai')
    ultimately show ?thesis by blast
  qed
qed

lemma propagation_pass_remaining:
  assumes "well_formed ai" "sound w ai" "recorded ai s"
    and pass: "propagation_pass ai s = Some (ai', s', True)"
  shows "remaining w ai' s' < remaining w ai s"
proof -
  note p = propagation_pass_progress [OF assms]
  let ?V = "true_statements w (grid_size ai)"
  have f: "finite (?V - fst ` set s)" using finite_true_statements by blast
  have c1: "fcard (undetermined ai') \<le> fcard (undetermined ai)"
    using p(3) by (rule fcard_mono)
  have c2: "card (?V - fst ` set s') \<le> card (?V - fst ` set s)"
    using p(4) by (intro card_mono f) blast
  from p(5) consider (cells) "undetermined ai' |\<subset>| undetermined ai"
    | (statement) v where "v \<in> ?V" "v \<notin> fst ` set s" "v \<in> fst ` set s'"
    by blast
  then show ?thesis
  proof cases
    case cells
    then have "fcard (undetermined ai') < fcard (undetermined ai)"
      by (rule pfsubset_fcard_mono)
    then show ?thesis using c2 by (simp add: remaining_def p(2))
  next
    case statement
    then have "?V - fst ` set s' \<subset> ?V - fst ` set s" using p(4) by blast
    then have "card (?V - fst ` set s') < card (?V - fst ` set s)"
      using f by (intro psubset_card_mono)
    then show ?thesis using c1 by (simp add: remaining_def p(2))
  qed
qed

lemma propagation_loop_returns:
  "well_formed ai \<Longrightarrow> sound w ai \<Longrightarrow> recorded ai s \<Longrightarrow>
   \<exists>res. propagation_loop ai s n = Some res"
proof (induction "remaining w ai s" arbitrary: ai s n rule: less_induct)
  case less
  from propagation_pass_returns [OF less.prems(1,2), of s]
  obtain ai' s' changed where pass: "propagation_pass ai s = Some (ai', s', changed)"
    by (metis prod_cases3)
  show ?case
  proof (cases changed)
    case False
    then show ?thesis using pass by (subst propagation_loop.simps) simp
  next
    case True
    have "\<exists>res. propagation_loop ai' s' (n + 1) = Some res"
    proof (rule less.hyps)
      show "remaining w ai' s' < remaining w ai s"
        using propagation_pass_remaining [OF less.prems] pass True by simp
      show "well_formed ai'" using propagation_pass_well_formed [OF less.prems(1) pass] .
      show "sound w ai'" using propagation_pass_sound [OF less.prems(1,2) pass] .
      show "recorded ai' s'" using propagation_pass_progress(1) [OF less.prems pass] .
    qed
    then show ?thesis using pass True by (subst propagation_loop.simps) simp
  qed
qed

lemma add_knowledge_returns:
  assumes "well_formed ai" "sound w ai" "consistent w (grid_size ai) c n"
  shows "\<exists>ai'. add_knowledge c n ai = Some ai'"
proof -
  let ?ai1 = "add_statement c n ai"
  have "\<exists>res. propagation_loop ?ai1 (python_set_update (objects ?ai1) (knowledge_base ?ai1) []) 0
               = Some res"
    by (intro propagation_loop_returns [where w = w] add_statement_well_formed add_statement_sound
          recorded_initial assms)
  then show ?thesis by (auto simp: add_knowledge_def Let_def)
qed

lemma add_knowledge_sound:
  assumes "well_formed ai" "sound w ai" "consistent w (grid_size ai) c n"
    and "add_knowledge c n ai = Some ai'"
  shows "sound w ai'"
proof -
  let ?ai1 = "add_statement c n ai"
  let ?set = "python_set_update (objects ?ai1) (knowledge_base ?ai1) []"
  from assms(4) obtain res where
    loop: "propagation_loop ?ai1 ?set 0 = Some res"
    and ai': "ai' = (fst res)\<lparr>stat_generator := update_iterations (snd (snd res)) (stat_generator (fst res))\<rparr>"
    by (auto simp: add_knowledge_def Let_def split: prod.splits)
  have "well_formed (fst res) \<and> sound w (fst res)"
    by (rule propagation_loop_preserves [where I = "\<lambda>ai s. well_formed ai \<and> sound w ai", OF loop])
       (auto intro: add_statement_well_formed add_statement_sound assms(1,2,3)
          propagation_pass_well_formed propagation_pass_sound)
  then show ?thesis by (simp add: ai' sound_def)
qed


lemma reachable_on_reachable: "reachable_on w ai \<Longrightarrow> reachable ai"
  by (induction rule: reachable_on.induct) (auto intro: reachable.intros)

lemma reachable_on_sound: "reachable_on w ai \<Longrightarrow> sound w ai"
proof (induction rule: reachable_on.induct)
  case (constructed_on a_grid_size search_algorithm_name safe_cell_strategy)
  show ?case by (simp add: new_ai_def sound_def case_prod_beta)
next
  case (ingested_on ai c surrounding_mines_count ai')
  show ?case
    using add_knowledge_sound [OF reachable_well_formed [OF reachable_on_reachable]]
      ingested_on by blast
next
  case (moved_on ai drawn)
  then show ?case by (simp add: sound_def)
qed

lemma loop_state_invariant:
  "loop_state w ai s \<Longrightarrow> well_formed ai \<and> sound w ai \<and> recorded ai s"
proof (induction rule: loop_state.induct)
  case (entered ai c surrounding_mines_count)
  have w0: "well_formed ai" "sound w ai"
    using entered(1) by (auto intro: reachable_well_formed reachable_on_reachable reachable_on_sound)
  have "well_formed (add_statement c surrounding_mines_count ai)"
    using w0(1) by (rule add_statement_well_formed)
  moreover have "sound w (add_statement c surrounding_mines_count ai)"
    using w0 entered(2) by (rule add_statement_sound)
  ultimately show ?case using recorded_initial by blast
next
  case (repeated ai inferred_set ai' inferred_set')
  then show ?case
    using propagation_pass_well_formed [of ai inferred_set ai' inferred_set' True]
      propagation_pass_sound [of ai w inferred_set ai' inferred_set' True]
      propagation_pass_progress(1) [of ai w inferred_set ai' inferred_set' True]
    by blast
qed

lemma propagation_pass_identified:
  assumes "propagation_pass ai s = Some (ai', s', changed)"
  shows "identified_safe_cells ai |\<subseteq>| identified_safe_cells ai' \<and>
         identified_mines ai |\<subseteq>| identified_mines ai'"
proof -
  from propagation_pass_SomeD [OF assms] obtain r where
    "(ai', s', changed) = merge_inferences (fst (mark_known_cells ai)) s (snd (mark_known_cells ai)) r"
    by blast
  then have "ai' = fst (merge_inferences (fst (mark_known_cells ai)) s (snd (mark_known_cells ai)) r)"
    by (metis fst_conv)
  then show ?thesis by auto
qed



end
